theory Spec2Isabelle
  imports Complex_Main "HOL-Library.Word" "HOL-Library.Signed_Division"
begin

chapter \<open>The HTTP client manager of gpt-load (internal/httpclient/manager.go)\<close>

text \<open>
  The package keeps one \<open>*http.Client\<close> per configuration fingerprint. This theory embeds
  \<^item> \<open>Config\<close> and \<open>Config.getFingerprint\<close> (the \<open>fmt.Sprintf\<close> call with its verbs
    \<open>%.0f\<close>, \<open>%d\<close>, \<open>%t\<close> and \<open>%s\<close>, and \<open>time.Duration.Seconds\<close>),
  \<^item> \<open>HTTPClientManager.GetClient\<close> as a state transformer over the manager's map, the
    heap of allocated clients and the log of warnings, and
  \<^item> the same method as a step relation of several goroutines that take the manager's
    \<open>sync.RWMutex\<close>.
\<close>

section \<open>Library behaviour the fingerprint depends on\<close>

subsection \<open>time.Duration and int64 division\<close>

text \<open>
  \<open>time.Duration\<close> is an \<open>int64\<close> count of nanoseconds. Go's \<open>/\<close> and \<open>%\<close> on
  integers truncate towards zero; the result is again an \<open>int64\<close>.
\<close>

type_synonym Duration = "64 word"

definition Second :: Duration where
  "Second = 1000000000"

definition int64_quo :: "64 word \<Rightarrow> 64 word \<Rightarrow> 64 word" where
  "int64_quo a b = word_of_int (sint a sdiv sint b)"

definition int64_rem :: "64 word \<Rightarrow> 64 word \<Rightarrow> 64 word" where
  "int64_rem a b = word_of_int (sint a smod sint b)"

subsection \<open>float64 arithmetic, as far as Seconds uses it\<close>

text \<open>
  A finite \<open>float64\<close> is a sign and a magnitude \<open>f_man * 2 ^ f_exp\<close>. Every operation
  computes the exact result and rounds it to 53 significant bits, to nearest, ties to even
  (IEEE 754 binary64 in its normal range; the values that occur here, quotients by \<open>1e9\<close>
  that are zero or at least \<open>1e-9\<close> and sums below \<open>2 ^ 34\<close>, never leave that range).

  \<open>rhe_div a b\<close> is the integer nearest to \<open>a / b\<close>, ties to even.
  \<open>ilog2_quot a b\<close> is \<open>\<lfloor>log\<^sub>2 (a / b)\<rfloor>\<close> for positive \<open>a\<close>, \<open>b\<close>.
  \<open>round53 a b\<close> is the rounding of \<open>a / b\<close>, returned as mantissa and exponent.
\<close>

datatype float64 = Float64 (f_neg: bool) (f_man: int) (f_exp: int)

function bit_length :: "int \<Rightarrow> int" where
  "bit_length k = (if k \<le> 0 then 0 else bit_length (k div 2) + 1)"
  by pat_completeness auto
termination
  by (relation "measure nat") auto

declare bit_length.simps [simp del]

definition rhe_div :: "int \<Rightarrow> int \<Rightarrow> int" where
  "rhe_div a b =
     (let q = a div b; r = a mod b in
      if 2 * r < b then q
      else if b < 2 * r then q + 1
      else if even q then q else q + 1)"

definition ilog2_quot :: "int \<Rightarrow> int \<Rightarrow> int" where
  "ilog2_quot a b =
     (let k = bit_length a - bit_length b in
      if (if 0 \<le> k then b * 2 ^ nat k \<le> a else b \<le> a * 2 ^ nat (- k)) then k else k - 1)"

definition round53 :: "int \<Rightarrow> int \<Rightarrow> int \<times> int" where
  "round53 a b =
     (if a = 0 then (0, 0)
      else let e = ilog2_quot a b - 52 in
        if 0 \<le> e then (rhe_div a (b * 2 ^ nat e), e)
        else (rhe_div (a * 2 ^ nat (- e)) b, e))"

text \<open>The conversion \<open>float64(i)\<close> of an integer.\<close>

definition f64_of_int :: "int \<Rightarrow> float64" where
  "f64_of_int i = (case round53 \<bar>i\<bar> 1 of (m, e) \<Rightarrow> Float64 (i < 0) m e)"

text \<open>The quotient \<open>x / y\<close> for a divisor that is not zero.\<close>

definition f64_div :: "float64 \<Rightarrow> float64 \<Rightarrow> float64" where
  "f64_div x y =
     (let d = f_exp x - f_exp y;
          a = f_man x * 2 ^ nat d;
          b = f_man y * 2 ^ nat (- d)
      in case round53 a b of (m, e) \<Rightarrow> Float64 (f_neg x \<noteq> f_neg y) m e)"

text \<open>
  The sum \<open>x + y\<close>: both operands are brought to the smaller exponent \<open>e\<close>, added as
  signed integers, and the exact sum is rounded. An exact sum of zero is \<open>+0\<close>, unless both
  operands are negative zeros.
\<close>

definition f64_signed :: "float64 \<Rightarrow> int \<Rightarrow> int" where
  "f64_signed x e = (if f_neg x then - 1 else 1) * f_man x * 2 ^ nat (f_exp x - e)"

definition f64_add :: "float64 \<Rightarrow> float64 \<Rightarrow> float64" where
  "f64_add x y =
     (let e = min (f_exp x) (f_exp y);
          s = f64_signed x e + f64_signed y e
      in if s = 0 then Float64 (f_neg x \<and> f_neg y) 0 0
         else case (if 0 \<le> e then round53 (\<bar>s\<bar> * 2 ^ nat e) 1
                    else round53 \<bar>s\<bar> (2 ^ nat (- e)))
              of (m, e') \<Rightarrow> Float64 (s < 0) m e')"

text \<open>
  \<^verbatim>\<open>
  func (d Duration) Seconds() float64 {
      sec := d / Second
      nsec := d % Second
      return float64(sec) + float64(nsec)/1e9
  }
  \<close>
\<close>

definition Seconds :: "Duration \<Rightarrow> float64" where
  "Seconds d =
     (let sec = int64_quo d Second; nsec = int64_rem d Second in
      f64_add (f64_of_int (sint sec))
              (f64_div (f64_of_int (sint nsec)) (Float64 False 1000000000 0)))"

subsection \<open>The verbs of fmt.Sprintf\<close>

text \<open>
  \<open>%d\<close> prints an integer in decimal with a leading \<open>-\<close> when negative, \<open>%t\<close> prints
  \<open>true\<close> or \<open>false\<close>, \<open>%s\<close> copies the string. \<open>%.0f\<close> prints the sign of the float
  (also of a value that rounds to zero: \<open>-0.4\<close> prints as \<open>-0\<close>) and its magnitude rounded to
  an integer, to nearest, ties to even, on the exact binary value.
\<close>

definition digit_char :: "int \<Rightarrow> char" where
  "digit_char d =
     (if d = 0 then CHR ''0'' else if d = 1 then CHR ''1'' else if d = 2 then CHR ''2''
      else if d = 3 then CHR ''3'' else if d = 4 then CHR ''4'' else if d = 5 then CHR ''5''
      else if d = 6 then CHR ''6'' else if d = 7 then CHR ''7'' else if d = 8 then CHR ''8''
      else CHR ''9'')"

function fmt_digits :: "int \<Rightarrow> string" where
  "fmt_digits n =
     (if n < 10 then [digit_char n] else fmt_digits (n div 10) @ [digit_char (n mod 10)])"
  by pat_completeness auto
termination
  by (relation "measure nat") auto

declare fmt_digits.simps [simp del]

definition fmt_d :: "int \<Rightarrow> string" where
  "fmt_d i = (if i < 0 then ''-'' @ fmt_digits (- i) else fmt_digits i)"

definition fmt_t :: "bool \<Rightarrow> string" where
  "fmt_t b = (if b then ''true'' else ''false'')"

definition round_f0 :: "float64 \<Rightarrow> int" where
  "round_f0 x =
     (if 0 \<le> f_exp x then f_man x * 2 ^ nat (f_exp x)
      else rhe_div (f_man x) (2 ^ nat (- f_exp x)))"

definition fmt_f0 :: "float64 \<Rightarrow> string" where
  "fmt_f0 x = (if f_neg x then ''-'' else []) @ fmt_digits (round_f0 x)"

subsection \<open>net/url, net/http, crypto/tls and logrus\<close>

text \<open>
  \<open>url.Parse\<close> is not part of this package. It is a parameter of the model: a function from
  the raw string to either an error (\<open>Inl\<close>, the text of \<open>err.Error()\<close>) or the parsed URL.
\<close>

datatype URL = URL string

type_synonym url_Parse = "string \<Rightarrow> string + URL"

text \<open>
  The values the code stores in \<open>Transport.Proxy\<close>: \<open>http.ProxyFromEnvironment\<close> or the
  closure \<open>http.ProxyURL(u)\<close>.
\<close>

datatype proxy_func = http_ProxyFromEnvironment | http_ProxyURL URL

record Dialer =
  Timeout :: "64 word"
  KeepAlive :: "64 word"

record tls_Config =
  InsecureSkipVerify :: bool

text \<open>
  The fields of \<open>http.Transport\<close> that \<open>GetClient\<close> sets. \<open>DialContext\<close> is the method
  value of the dialer it was taken from; \<open>TLSClientConfig\<close> is a pointer that stays
  \<open>nil\<close> (\<open>None\<close>) unless it is assigned.
\<close>

record Transport =
  DialContext :: Dialer
  ForceAttemptHTTP2 :: bool
  MaxIdleConns :: int
  MaxIdleConnsPerHost :: int
  IdleConnTimeout :: "64 word"
  TLSHandshakeTimeout :: "64 word"
  ExpectContinueTimeout :: "64 word"
  ResponseHeaderTimeout :: "64 word"
  DisableCompression :: bool
  WriteBufferSize :: int
  ReadBufferSize :: int
  TLSClientConfig :: "tls_Config option"
  Proxy :: "proxy_func option"

record Client =
  Transport :: Transport
  Timeout :: "64 word"

text \<open>
  \<open>(*Transport).dialConn\<close> of net/http clones \<open>t.TLSClientConfig\<close> for every TLS
  handshake the transport makes, the one with an https proxy and the one with the https origin
  (directly or through a CONNECT tunnel) alike; a \<open>nil\<close> configuration verifies certificates.
  The transport has no setting for one leg only.
\<close>

datatype tls_leg = ProxyLeg | OriginLeg

definition verifies_certificate :: "Transport \<Rightarrow> tls_leg \<Rightarrow> bool" where
  "verifies_certificate t leg =
     (case TLSClientConfig t of None \<Rightarrow> True | Some cfg \<Rightarrow> \<not> InsecureSkipVerify cfg)"

text \<open>\<open>logrus.Warnf\<close> hands one entry of level warning to the logger, with the formatted message.\<close>

datatype logrus_entry = Warn string


section \<open>Config and its fingerprint\<close>

text \<open>
  The struct \<open>Config\<close>, field by field. Go's \<open>int\<close> is read as its integer value: the
  fingerprint only prints it.
\<close>

record Config =
  ConnectTimeout :: Duration
  RequestTimeout :: Duration
  IdleConnTimeout :: Duration
  MaxIdleConns :: int
  MaxIdleConnsPerHost :: int
  ResponseHeaderTimeout :: Duration
  DisableCompression :: bool
  WriteBufferSize :: int
  ReadBufferSize :: int
  ForceAttemptHTTP2 :: bool
  TLSHandshakeTimeout :: Duration
  ExpectContinueTimeout :: Duration
  ProxyURL :: string
  ProxyTLSSkipVerify :: bool

text \<open>
  \<^verbatim>\<open>
  fmt.Sprintf(
    "ct:%.0fs|rt:%.0fs|it:%.0fs|mic:%d|mich:%d|rht:%.0fs|dc:%t|wbs:%d|rbs:%d|fh2:%t|tlst:%.0fs|ect:%.0fs|proxy:%s|ptls:%t",
    c.ConnectTimeout.Seconds(), c.RequestTimeout.Seconds(), c.IdleConnTimeout.Seconds(),
    c.MaxIdleConns, c.MaxIdleConnsPerHost, c.ResponseHeaderTimeout.Seconds(),
    c.DisableCompression, c.WriteBufferSize, c.ReadBufferSize, c.ForceAttemptHTTP2,
    c.TLSHandshakeTimeout.Seconds(), c.ExpectContinueTimeout.Seconds(),
    c.ProxyURL, c.ProxyTLSSkipVerify)
  \<close>
\<close>

definition getFingerprint :: "Config \<Rightarrow> string" where
  "getFingerprint c =
     ''ct:'' @ fmt_f0 (Seconds (ConnectTimeout c)) @ ''s'' @
     ''|rt:'' @ fmt_f0 (Seconds (RequestTimeout c)) @ ''s'' @
     ''|it:'' @ fmt_f0 (Seconds (IdleConnTimeout c)) @ ''s'' @
     ''|mic:'' @ fmt_d (MaxIdleConns c) @
     ''|mich:'' @ fmt_d (MaxIdleConnsPerHost c) @
     ''|rht:'' @ fmt_f0 (Seconds (ResponseHeaderTimeout c)) @ ''s'' @
     ''|dc:'' @ fmt_t (DisableCompression c) @
     ''|wbs:'' @ fmt_d (WriteBufferSize c) @
     ''|rbs:'' @ fmt_d (ReadBufferSize c) @
     ''|fh2:'' @ fmt_t (ForceAttemptHTTP2 c) @
     ''|tlst:'' @ fmt_f0 (Seconds (TLSHandshakeTimeout c)) @ ''s'' @
     ''|ect:'' @ fmt_f0 (Seconds (ExpectContinueTimeout c)) @ ''s'' @
     ''|proxy:'' @ ProxyURL c @
     ''|ptls:'' @ fmt_t (ProxyTLSSkipVerify c)"

section \<open>The manager\<close>

text \<open>
  The state \<open>GetClient\<close> works on: the map \<open>m.clients\<close> of the manager, the
  \<open>http.Client\<close> values allocated so far (a \<open>*http.Client\<close> is an index into this list, so
  that two pointers are the same instance exactly when they are the same index), and the
  entries logged so far, oldest first.
\<close>

record world =
  clients :: "string \<rightharpoonup> nat"
  heap :: "Client list"
  log :: "logrus_entry list"

text \<open>\<open>NewHTTPClientManager\<close> makes the map; nothing is allocated or logged yet.\<close>

definition NewHTTPClientManager :: world where
  "NewHTTPClientManager = \<lparr>clients = Map.empty, heap = [], log = []\<rparr>"

definition Warnf :: "string \<Rightarrow> logrus_entry list \<Rightarrow> logrus_entry list" where
  "Warnf msg l = l @ [Warn msg]"

definition tls_warning :: string where
  "tls_warning =
     ''Proxy TLS certificate verification is disabled - this is not recommended for production use''"

definition invalid_proxy_warning :: "string \<Rightarrow> string \<Rightarrow> string" where
  "invalid_proxy_warning proxy err =
     ''Invalid proxy URL '' @ [CHR 0x27] @ proxy @ [CHR 0x27] @
     '' provided, falling back to environment settings: '' @ err"

text \<open>Lines 73 to 88: the transport literal. \<open>30 * time.Second\<close> is the keep-alive.\<close>

definition new_transport :: "Config \<Rightarrow> Transport" where
  "new_transport config =
     \<lparr>DialContext = \<lparr>Dialer.Timeout = ConnectTimeout config, KeepAlive = 30 * Second\<rparr>,
      ForceAttemptHTTP2 = Config.ForceAttemptHTTP2 config,
      MaxIdleConns = Config.MaxIdleConns config,
      MaxIdleConnsPerHost = Config.MaxIdleConnsPerHost config,
      IdleConnTimeout = Config.IdleConnTimeout config,
      TLSHandshakeTimeout = Config.TLSHandshakeTimeout config,
      ExpectContinueTimeout = Config.ExpectContinueTimeout config,
      ResponseHeaderTimeout = Config.ResponseHeaderTimeout config,
      DisableCompression = Config.DisableCompression config,
      WriteBufferSize = Config.WriteBufferSize config,
      ReadBufferSize = Config.ReadBufferSize config,
      TLSClientConfig = None,
      Proxy = None\<rparr>"

text \<open>
  Lines 90 to 96:
  \<^verbatim>\<open>
  if config.ProxyTLSSkipVerify {
      transport.TLSClientConfig = &tls.Config{InsecureSkipVerify: true}
      logrus.Warnf("Proxy TLS certificate verification is disabled - ...")
  }
  \<close>
\<close>

definition configure_tls :: "Config \<Rightarrow> Transport \<times> logrus_entry list \<Rightarrow> Transport \<times> logrus_entry list" where
  "configure_tls config tr_log =
     (case tr_log of (transport, l) \<Rightarrow>
        if ProxyTLSSkipVerify config
        then (transport\<lparr>TLSClientConfig := Some \<lparr>InsecureSkipVerify = True\<rparr>\<rparr>, Warnf tls_warning l)
        else (transport, l))"

text \<open>
  Lines 98 to 109:
  \<^verbatim>\<open>
  if config.ProxyURL != "" {
      proxyURL, err := url.Parse(config.ProxyURL)
      if err != nil {
          logrus.Warnf("Invalid proxy URL '%s' provided, falling back to environment settings: %v", config.ProxyURL, err)
          transport.Proxy = http.ProxyFromEnvironment
      } else {
          transport.Proxy = http.ProxyURL(proxyURL)
      }
  } else {
      transport.Proxy = http.ProxyFromEnvironment
  }
  \<close>
\<close>

definition set_proxy :: "url_Parse \<Rightarrow> Config \<Rightarrow> Transport \<times> logrus_entry list \<Rightarrow> Transport \<times> logrus_entry list" where
  "set_proxy parse config tr_log =
     (case tr_log of (transport, l) \<Rightarrow>
        if ProxyURL config \<noteq> []
        then (case parse (ProxyURL config) of
                Inl err \<Rightarrow>
                  (transport\<lparr>Proxy := Some http_ProxyFromEnvironment\<rparr>,
                   Warnf (invalid_proxy_warning (ProxyURL config) err) l)
              | Inr proxyURL \<Rightarrow> (transport\<lparr>Proxy := Some (http_ProxyURL proxyURL)\<rparr>, l))
        else (transport\<lparr>Proxy := Some http_ProxyFromEnvironment\<rparr>, l))"

text \<open>
  Lines 72 to 114, the construction of the new client: the transport, the TLS setting, the
  proxy, then \<open>&http.Client{Transport: transport, Timeout: config.RequestTimeout}\<close>. It
  returns the client value and the log with the warnings it gave.
\<close>

definition build_client :: "url_Parse \<Rightarrow> Config \<Rightarrow> logrus_entry list \<Rightarrow> Client \<times> logrus_entry list" where
  "build_client parse config l =
     (case set_proxy parse config (configure_tls config (new_transport config, l)) of
        (transport, l') \<Rightarrow> (\<lparr>Transport = transport, Timeout = RequestTimeout config\<rparr>, l'))"

text \<open>
  The slow path, lines 64 to 117, which runs with the write lock held: the second lookup,
  and on a miss the construction, the allocation of the client and \<open>m.clients[fingerprint] =
  newClient\<close>.
\<close>

definition slow_path :: "url_Parse \<Rightarrow> Config \<Rightarrow> string \<Rightarrow> world \<Rightarrow> nat \<times> world" where
  "slow_path parse config fingerprint w =
     (case clients w fingerprint of
        Some client \<Rightarrow> (client, w)
      | None \<Rightarrow>
          (case build_client parse config (log w) of
             (newClient, l') \<Rightarrow>
               (length (heap w),
                w\<lparr>clients := (clients w)(fingerprint \<mapsto> length (heap w)),
                  heap := heap w @ [newClient],
                  log := l'\<rparr>)))"

text \<open>
  \<open>GetClient\<close> run by one goroutine with nobody else on the manager: the fast path under
  the read lock (lines 55 to 61), then the slow path.
\<close>

definition GetClient :: "url_Parse \<Rightarrow> Config \<Rightarrow> world \<Rightarrow> nat \<times> world" where
  "GetClient parse config w =
     (let fingerprint = getFingerprint config in
      case clients w fingerprint of
        Some client \<Rightarrow> (client, w)
      | None \<Rightarrow> slow_path parse config fingerprint w)"

text \<open>A run of calls on the same manager, one after the other.\<close>

fun GetClient_calls :: "url_Parse \<Rightarrow> Config list \<Rightarrow> world \<Rightarrow> world" where
  "GetClient_calls parse [] w = w"
| "GetClient_calls parse (config # configs) w =
     GetClient_calls parse configs (snd (GetClient parse config w))"

text \<open>
  The states of a manager in use: the one \<open>NewHTTPClientManager\<close> returns and every state
  a call of \<open>GetClient\<close> leaves behind.
\<close>

inductive reachable :: "url_Parse \<Rightarrow> world \<Rightarrow> bool" for parse :: url_Parse where
  reachable_new: "reachable parse NewHTTPClientManager"
| reachable_call: "reachable parse w \<Longrightarrow> reachable parse (snd (GetClient parse config w))"

subsection \<open>GetClient run by several goroutines\<close>

text \<open>
  The manager's lock is a \<open>sync.RWMutex\<close>: a count of the goroutines that hold it for
  reading and a flag for the one that holds it for writing. \<open>RLock\<close> waits while the flag
  is set; \<open>Lock\<close> waits while the flag is set or the count is not zero. (In Go a waiting
  \<open>Lock\<close> also holds back new readers; that only removes schedules, so every schedule of
  the program is a schedule of this model.)
\<close>

record locked_world = world +
  readers :: nat
  writer :: bool

text \<open>
  Where a goroutine stands inside \<open>GetClient\<close>, with its local variables: before
  \<open>RLock\<close> (line 56), before the lookup (57), before \<open>RUnlock\<close> with what the lookup
  found (58), before \<open>Lock\<close> (64), before the second lookup (68), before the construction
  (73 to 114), before the store with the new client (116), before the deferred \<open>Unlock\<close> with
  the client to return, and after its return. The fingerprint of line 53 is a function of
  the configuration and is computed where it is used.
\<close>

datatype goroutine =
    AtRLock Config
  | AtLookup Config
  | AtRUnlock Config "nat option"
  | AtLock Config
  | AtRecheck Config
  | AtBuild Config
  | AtStore Config nat
  | AtUnlock nat
  | Returned nat

text \<open>
  The next step of one goroutine on the shared state: \<open>None\<close> when it has to wait (or has
  returned), otherwise its new position and the new state.
\<close>

definition advance :: "url_Parse \<Rightarrow> goroutine \<Rightarrow> locked_world \<Rightarrow> (goroutine \<times> locked_world) option" where
  "advance parse g s =
     (case g of
        AtRLock config \<Rightarrow>
          if writer s then None
          else Some (AtLookup config, s\<lparr>readers := readers s + 1\<rparr>)
      | AtLookup config \<Rightarrow>
          Some (AtRUnlock config (clients s (getFingerprint config)), s)
      | AtRUnlock config found \<Rightarrow>
          Some (case found of Some client \<Rightarrow> Returned client | None \<Rightarrow> AtLock config,
                s\<lparr>readers := readers s - 1\<rparr>)
      | AtLock config \<Rightarrow>
          if writer s \<or> readers s \<noteq> 0 then None
          else Some (AtRecheck config, s\<lparr>writer := True\<rparr>)
      | AtRecheck config \<Rightarrow>
          Some (case clients s (getFingerprint config) of
                  Some client \<Rightarrow> AtUnlock client
                | None \<Rightarrow> AtBuild config, s)
      | AtBuild config \<Rightarrow>
          (case build_client parse config (log s) of
             (newClient, l') \<Rightarrow>
               Some (AtStore config (length (heap s)),
                     s\<lparr>heap := heap s @ [newClient], log := l'\<rparr>))
      | AtStore config newClient \<Rightarrow>
          Some (AtUnlock newClient,
                s\<lparr>clients := (clients s)(getFingerprint config \<mapsto> newClient)\<rparr>)
      | AtUnlock client \<Rightarrow> Some (Returned client, s\<lparr>writer := False\<rparr>)
      | Returned client \<Rightarrow> None)"

text \<open>
  A system is the shared state and the goroutines. The scheduler picks goroutine \<open>i\<close>; a
  goroutine that waits, or an index that names none, leaves the system as it is. A schedule
  is the list of the picks.
\<close>

definition step :: "url_Parse \<Rightarrow> nat \<Rightarrow> locked_world \<times> goroutine list \<Rightarrow> locked_world \<times> goroutine list" where
  "step parse i sys =
     (case sys of (s, gs) \<Rightarrow>
        if i < length gs
        then (case advance parse (gs ! i) s of
                None \<Rightarrow> (s, gs)
              | Some (g', s') \<Rightarrow> (s', gs[i := g']))
        else (s, gs))"

fun run :: "url_Parse \<Rightarrow> nat list \<Rightarrow> locked_world \<times> goroutine list \<Rightarrow> locked_world \<times> goroutine list" where
  "run parse [] sys = sys"
| "run parse (i # schedule) sys = run parse schedule (step parse i sys)"

text \<open>All callers at the entry of \<open>GetClient\<close>, the lock free.\<close>

definition start :: "Config list \<Rightarrow> world \<Rightarrow> locked_world \<times> goroutine list" where
  "start configs w = (world.extend w \<lparr>readers = 0, writer = False\<rparr>, map AtRLock configs)"

fun returned :: "goroutine \<Rightarrow> bool" where
  "returned (Returned client) = True"
| "returned g = False"

text \<open>Holding the write lock; holding the read lock; about to write the map.\<close>

fun in_cs :: "goroutine \<Rightarrow> bool" where
  "in_cs (AtRecheck c) = True"
| "in_cs (AtBuild c) = True"
| "in_cs (AtStore c p) = True"
| "in_cs (AtUnlock p) = True"
| "in_cs g = False"

fun in_rd :: "goroutine \<Rightarrow> bool" where
  "in_rd (AtLookup c) = True"
| "in_rd (AtRUnlock c r) = True"
| "in_rd g = False"

fun at_store :: "goroutine \<Rightarrow> bool" where
  "at_store (AtStore c p) = True"
| "at_store g = False"

section \<open>Notions used in the statements\<close>

subsection \<open>Precision of the fingerprint\<close>

text \<open>
  What \<open>%.0f\<close> shows of a duration: the sign of \<open>Seconds()\<close> and its magnitude rounded to a
  whole number.
\<close>

definition rounded_seconds :: "Duration \<Rightarrow> bool \<times> int" where
  "rounded_seconds d = (f_neg (Seconds d), round_f0 (Seconds d))"

definition duration_fields :: "(Config \<Rightarrow> Duration) list" where
  "duration_fields =
     [ConnectTimeout, RequestTimeout, Config.IdleConnTimeout, Config.ResponseHeaderTimeout,
      Config.TLSHandshakeTimeout, Config.ExpectContinueTimeout]"

text \<open>The fields that are not durations agree.\<close>

definition same_other_fields :: "Config \<Rightarrow> Config \<Rightarrow> bool" where
  "same_other_fields c1 c2 \<longleftrightarrow>
     Config.MaxIdleConns c1 = Config.MaxIdleConns c2 \<and>
     Config.MaxIdleConnsPerHost c1 = Config.MaxIdleConnsPerHost c2 \<and>
     Config.DisableCompression c1 = Config.DisableCompression c2 \<and>
     Config.WriteBufferSize c1 = Config.WriteBufferSize c2 \<and>
     Config.ReadBufferSize c1 = Config.ReadBufferSize c2 \<and>
     Config.ForceAttemptHTTP2 c1 = Config.ForceAttemptHTTP2 c2 \<and>
     ProxyURL c1 = ProxyURL c2 \<and>
     ProxyTLSSkipVerify c1 = ProxyTLSSkipVerify c2"

text \<open>
  Two configurations agree at the precision of the fingerprint: the same counts, booleans and
  proxy string, and every duration shown alike by \<open>%.0f\<close>.
\<close>

definition same_at_precision :: "Config \<Rightarrow> Config \<Rightarrow> bool" where
  "same_at_precision c1 c2 =
     (rounded_seconds (ConnectTimeout c1) = rounded_seconds (ConnectTimeout c2) \<and>
      rounded_seconds (RequestTimeout c1) = rounded_seconds (RequestTimeout c2) \<and>
      rounded_seconds (IdleConnTimeout c1) = rounded_seconds (IdleConnTimeout c2) \<and>
      MaxIdleConns c1 = MaxIdleConns c2 \<and>
      MaxIdleConnsPerHost c1 = MaxIdleConnsPerHost c2 \<and>
      rounded_seconds (ResponseHeaderTimeout c1) = rounded_seconds (ResponseHeaderTimeout c2) \<and>
      DisableCompression c1 = DisableCompression c2 \<and>
      WriteBufferSize c1 = WriteBufferSize c2 \<and>
      ReadBufferSize c1 = ReadBufferSize c2 \<and>
      ForceAttemptHTTP2 c1 = ForceAttemptHTTP2 c2 \<and>
      rounded_seconds (TLSHandshakeTimeout c1) = rounded_seconds (TLSHandshakeTimeout c2) \<and>
      rounded_seconds (ExpectContinueTimeout c1) = rounded_seconds (ExpectContinueTimeout c2) \<and>
      ProxyURL c1 = ProxyURL c2 \<and>
      ProxyTLSSkipVerify c1 = ProxyTLSSkipVerify c2)"

text \<open>A duration of a whole number of seconds: \<open>d % Second\<close> is zero.\<close>

definition whole_seconds :: "Duration \<Rightarrow> bool" where
  "whole_seconds d \<longleftrightarrow> int64_rem d Second = 0"

text \<open>
  Two configurations that are the same but for the part of their durations below one second:
  the other fields agree and every duration has the same whole seconds \<open>d / Second\<close>.
\<close>

definition differ_only_below_second :: "Config \<Rightarrow> Config \<Rightarrow> bool" where
  "differ_only_below_second c1 c2 \<longleftrightarrow>
     same_other_fields c1 c2 \<and>
     list_all (\<lambda>f. int64_quo (f c1) Second = int64_quo (f c2) Second) duration_fields"

text \<open>
  A duration that is not negative, below \<open>2 ^ 23\<close> seconds (97 days), whose part below one
  second is less than half a second.
\<close>

definition below_half :: "Duration \<Rightarrow> bool" where
  "below_half d \<longleftrightarrow>
     0 \<le> sint d \<and> sint d < 8388608 * 1000000000 \<and> sint (int64_rem d Second) < 500000000"

subsection \<open>What a call of GetClient gives\<close>

text \<open>
  The client built for a configuration, the entries the TLS block and the proxy block log,
  and the proxy function chosen.
\<close>

definition client_for :: "url_Parse \<Rightarrow> Config \<Rightarrow> Client" where
  "client_for parse config = fst (build_client parse config [])"

definition tls_entries :: "Config \<Rightarrow> logrus_entry list" where
  "tls_entries config = (if ProxyTLSSkipVerify config then [Warn tls_warning] else [])"

definition proxy_entries :: "url_Parse \<Rightarrow> Config \<Rightarrow> logrus_entry list" where
  "proxy_entries parse config =
     (if ProxyURL config = [] then []
      else case parse (ProxyURL config) of
             Inl err \<Rightarrow> [Warn (invalid_proxy_warning (ProxyURL config) err)]
           | Inr u \<Rightarrow> [])"

definition proxy_choice :: "url_Parse \<Rightarrow> Config \<Rightarrow> proxy_func" where
  "proxy_choice parse config =
     (if ProxyURL config = [] then http_ProxyFromEnvironment
      else case parse (ProxyURL config) of
             Inl err \<Rightarrow> http_ProxyFromEnvironment
           | Inr u \<Rightarrow> http_ProxyURL u)"

text \<open>
  Every entry of the map points to an allocated client, built for a configuration with the
  key as its fingerprint.
\<close>

definition manager_inv :: "url_Parse \<Rightarrow> world \<Rightarrow> bool" where
  "manager_inv parse w \<longleftrightarrow>
     (\<forall>k p. clients w k = Some p \<longrightarrow>
        p < length (heap w) \<and> (\<exists>c. getFingerprint c = k \<and> heap w ! p = client_for parse c))"

subsection \<open>The invariant of the goroutines\<close>

text \<open>
  What a goroutine knows at its position, for callers that all have the fingerprint \<open>k\<close>:
  a client it found or is about to return is the one in the map; where it builds or stores,
  the map has no entry yet, and the client it stores is the last one allocated.
\<close>

fun good :: "string \<Rightarrow> locked_world \<Rightarrow> goroutine \<Rightarrow> bool" where
  "good k s (AtRLock c) = (getFingerprint c = k)"
| "good k s (AtLookup c) = (getFingerprint c = k)"
| "good k s (AtRUnlock c r) = (getFingerprint c = k \<and> (r = None \<or> r = clients s k))"
| "good k s (AtLock c) = (getFingerprint c = k)"
| "good k s (AtRecheck c) = (getFingerprint c = k)"
| "good k s (AtBuild c) = (getFingerprint c = k \<and> clients s k = None)"
| "good k s (AtStore c p) = (getFingerprint c = k \<and> clients s k = None \<and> Suc p = length (heap s))"
| "good k s (AtUnlock p) = (clients s k = Some p)"
| "good k s (Returned p) = (clients s k = Some p)"

text \<open>The steps a goroutine still has to take, at most.\<close>

fun weight :: "goroutine \<Rightarrow> nat" where
  "weight (AtRLock c) = 8"
| "weight (AtLookup c) = 7"
| "weight (AtRUnlock c r) = 6"
| "weight (AtLock c) = 5"
| "weight (AtRecheck c) = 4"
| "weight (AtBuild c) = 3"
| "weight (AtStore c p) = 2"
| "weight (AtUnlock p) = 1"
| "weight (Returned p) = 0"

text \<open>
  The lock counts its holders, a writer excludes readers, every goroutine is \<open>good\<close>, the
  other keys and the old clients are untouched, and the heap has grown by the clients built
  for \<open>k\<close>: none while the map has no entry and nobody is about to store, one otherwise.
\<close>

definition sys_inv :: "string \<Rightarrow> world \<Rightarrow> locked_world \<times> goroutine list \<Rightarrow> bool" where
  "sys_inv k w0 sys =
     (case sys of (s, gs) \<Rightarrow>
        length (filter in_cs gs) = (if writer s then 1 else 0) \<and>
        length (filter in_rd gs) = readers s \<and>
        (writer s \<longrightarrow> readers s = 0) \<and>
        list_all (good k s) gs \<and>
        (\<forall>k'. k' \<noteq> k \<longrightarrow> clients s k' = clients w0 k') \<and>
        take (length (heap w0)) (heap s) = heap w0 \<and>
        (\<forall>q. clients w0 k = Some q \<longrightarrow> clients s k = Some q \<and> heap s = heap w0) \<and>
        (clients w0 k = None \<longrightarrow> clients s k = None \<longrightarrow>
           length (heap s) = length (heap w0) + length (filter at_store gs)) \<and>
        (clients w0 k = None \<longrightarrow>
           (\<forall>p. clients s k = Some p \<longrightarrow>
              p = length (heap w0) \<and> length (heap s) = length (heap w0) + 1)))"

subsection \<open>Reading the printed text back\<close>

definition is_digit :: "char \<Rightarrow> bool" where
  "is_digit c = (c \<in> set ''0123456789'')"

definition digit_val :: "char \<Rightarrow> int" where
  "digit_val c =
     (if c = CHR ''0'' then 0 else if c = CHR ''1'' then 1 else if c = CHR ''2'' then 2
      else if c = CHR ''3'' then 3 else if c = CHR ''4'' then 4 else if c = CHR ''5'' then 5
      else if c = CHR ''6'' then 6 else if c = CHR ''7'' then 7 else if c = CHR ''8'' then 8
      else 9)"

definition digits_val :: "string \<Rightarrow> int" where
  "digits_val s = foldl (\<lambda>a c. 10 * a + digit_val c) 0 s"

text \<open>
  The fingerprint is twelve tagged fields, each followed by \<open>|\<close>, and a tail that holds the
  proxy string and the last flag.
\<close>

fun join_bar :: "string list \<Rightarrow> string \<Rightarrow> string" where
  "join_bar [] t = t"
| "join_bar (f # fs) t = f @ CHR ''|'' # join_bar fs t"

definition fp_fields :: "Config \<Rightarrow> string list" where
  "fp_fields c =
     [''ct:'' @ fmt_f0 (Seconds (ConnectTimeout c)) @ ''s'',
      ''rt:'' @ fmt_f0 (Seconds (RequestTimeout c)) @ ''s'',
      ''it:'' @ fmt_f0 (Seconds (IdleConnTimeout c)) @ ''s'',
      ''mic:'' @ fmt_d (MaxIdleConns c),
      ''mich:'' @ fmt_d (MaxIdleConnsPerHost c),
      ''rht:'' @ fmt_f0 (Seconds (ResponseHeaderTimeout c)) @ ''s'',
      ''dc:'' @ fmt_t (DisableCompression c),
      ''wbs:'' @ fmt_d (WriteBufferSize c),
      ''rbs:'' @ fmt_d (ReadBufferSize c),
      ''fh2:'' @ fmt_t (ForceAttemptHTTP2 c),
      ''tlst:'' @ fmt_f0 (Seconds (TLSHandshakeTimeout c)) @ ''s'',
      ''ect:'' @ fmt_f0 (Seconds (ExpectContinueTimeout c)) @ ''s'']"

definition fp_tail :: "Config \<Rightarrow> string" where
  "fp_tail c = ''proxy:'' @ ProxyURL c @ ''|ptls:'' @ fmt_t (ProxyTLSSkipVerify c)"

text \<open>The magnitude of a float as a real number.\<close>

definition f64_mag :: "float64 \<Rightarrow> real" where
  "f64_mag x = real_of_int (f_man x) * 2 powi (f_exp x)"

subsection \<open>Inputs for the examples\<close>

text \<open>
  The defaults of the system settings (15 s to connect, 600 s per request, 120 s idle, 100 and
  50 idle connections, 600 s for the response header), no proxy, and a parser that rejects
  \<open>http://%zz\<close> with the error text of \<open>url.Parse\<close> (the operation, the quoted input and
  the quoted escape, the quote being the character \<open>0x22\<close>) and accepts everything else.
\<close>

definition example_config :: Config where
  "example_config =
     \<lparr>ConnectTimeout = 15 * Second, RequestTimeout = 600 * Second,
      IdleConnTimeout = 120 * Second, MaxIdleConns = 100, MaxIdleConnsPerHost = 50,
      ResponseHeaderTimeout = 600 * Second, DisableCompression = False,
      WriteBufferSize = 32768, ReadBufferSize = 32768, ForceAttemptHTTP2 = True,
      TLSHandshakeTimeout = 15 * Second, ExpectContinueTimeout = Second,
      ProxyURL = [], ProxyTLSSkipVerify = False\<rparr>"

definition example_parse_error :: string where
  "example_parse_error =
     ''parse '' @ [CHR 0x22] @ ''http://%zz'' @ [CHR 0x22] @
     '': invalid URL escape '' @ [CHR 0x22] @ ''%zz'' @ [CHR 0x22]"

definition example_parse :: url_Parse where
  "example_parse raw =
     (if raw = ''http://%zz'' then Inl example_parse_error else Inr (URL raw))"

text \<open>
  Three callers whose configurations print the same fingerprint (15.2 s to connect is printed
  \<open>ct:15s\<close>), and a schedule in which all three miss on the fast path before the second
  caller takes the write lock.
\<close>

definition example_callers :: "Config list" where
  "example_callers =
     [example_config, example_config\<lparr>ConnectTimeout := 15200000000\<rparr>, example_config]"

definition example_schedule :: "nat list" where
  "example_schedule = [0, 1, 2, 0, 1, 2, 0, 1, 2, 1, 0, 1, 2, 1, 1, 1, 2, 0, 2, 2, 0, 0, 0]"

chapter \<open>Properties\<close>

section \<open>The text of numbers\<close>

text \<open>
  The decimal text of an integer holds digits only and can be read back, so \<open>%d\<close>, \<open>%t\<close>
  and the digits of \<open>%.0f\<close> are injective, and none of them holds the separator \<open>|\<close>.
\<close>

lemma digit_char_is_digit: "is_digit (digit_char d)"
  by (simp add: digit_char_def is_digit_def)

lemma digit_val_digit_char: "0 \<le> d \<Longrightarrow> d < 10 \<Longrightarrow> digit_val (digit_char d) = d"
  by (simp add: digit_char_def digit_val_def) arith

lemma fmt_digits_is_digit: "c \<in> set (fmt_digits n) \<Longrightarrow> is_digit c"
proof (induction n rule: fmt_digits.induct)
  case (1 n)
  show ?case
  proof (cases "n < 10")
    case True
    with "1.prems" show ?thesis
      by (simp add: fmt_digits.simps [of n] digit_char_is_digit)
  next
    case False
    with "1.prems" "1.IH" show ?thesis
      by (auto simp: fmt_digits.simps [of n] digit_char_is_digit)
  qed
qed

lemma fmt_digits_not_empty: "fmt_digits n \<noteq> []"
  by (simp add: fmt_digits.simps [of n])

lemma digits_val_snoc: "digits_val (xs @ [c]) = 10 * digits_val xs + digit_val c"
  by (simp add: digits_val_def)

lemma digits_val_fmt_digits: "0 \<le> n \<Longrightarrow> digits_val (fmt_digits n) = n"
proof (induction n rule: fmt_digits.induct)
  case (1 n)
  show ?case
  proof (cases "n < 10")
    case True
    with "1.prems" show ?thesis
      by (simp add: fmt_digits.simps [of n] digits_val_def digit_val_digit_char)
  next
    case False
    then have "digits_val (fmt_digits (n div 10)) = n div 10"
      using "1.IH" "1.prems" by simp
    with False show ?thesis
      by (simp add: fmt_digits.simps [of n] digits_val_snoc digit_val_digit_char)
  qed
qed

lemma fmt_digits_inj: "0 \<le> a \<Longrightarrow> 0 \<le> b \<Longrightarrow> fmt_digits a = fmt_digits b \<Longrightarrow> a = b"
  by (metis digits_val_fmt_digits)

lemma is_digit_not_minus: "is_digit c \<Longrightarrow> c \<noteq> CHR ''-''"
  by (auto simp: is_digit_def)

lemma is_digit_not_bar: "is_digit c \<Longrightarrow> c \<noteq> CHR ''|''"
  by (auto simp: is_digit_def)

lemma fmt_digits_no_minus: "fmt_digits n \<noteq> CHR ''-'' # s"
proof
  assume "fmt_digits n = CHR ''-'' # s"
  then have "CHR ''-'' \<in> set (fmt_digits n)" by simp
  then show False using fmt_digits_is_digit is_digit_not_minus by blast
qed

lemma fmt_digits_no_minus': "CHR ''-'' # s \<noteq> fmt_digits n"
  using fmt_digits_no_minus [of n s] by metis

lemma fmt_d_inj: "fmt_d a = fmt_d b \<Longrightarrow> a = b"
  using fmt_digits_inj [of a b] fmt_digits_inj [of "- a" "- b"]
  by (auto simp: fmt_d_def fmt_digits_no_minus fmt_digits_no_minus' split: if_splits)

lemma fmt_t_inj: "fmt_t a = fmt_t b \<Longrightarrow> a = b"
  by (auto simp: fmt_t_def split: if_splits)

lemma fmt_f0_inj:
  assumes "0 \<le> round_f0 x" "0 \<le> round_f0 y" "fmt_f0 x = fmt_f0 y"
  shows "f_neg x = f_neg y \<and> round_f0 x = round_f0 y"
  using assms fmt_digits_inj [of "round_f0 x" "round_f0 y"]
  by (auto simp: fmt_f0_def fmt_digits_no_minus fmt_digits_no_minus' split: if_splits)

lemma fmt_digits_no_bar: "CHR ''|'' \<notin> set (fmt_digits n)"
  using fmt_digits_is_digit is_digit_not_bar by blast

lemma fmt_d_no_bar: "CHR ''|'' \<notin> set (fmt_d i)"
  by (simp add: fmt_d_def fmt_digits_no_bar)

lemma fmt_t_no_bar: "CHR ''|'' \<notin> set (fmt_t b)"
  by (simp add: fmt_t_def)

lemma fmt_f0_no_bar: "CHR ''|'' \<notin> set (fmt_f0 x)"
  by (simp add: fmt_f0_def fmt_digits_no_bar)

section \<open>Equal fingerprints\<close>

text \<open>
  The fields before the proxy string hold no \<open>|\<close>, so the text splits at the first twelve
  separators in one way only; what is left ends in the text of the last flag, which fixes the
  proxy string.
\<close>

lemma getFingerprint_join: "getFingerprint c = join_bar (fp_fields c) (fp_tail c)"
  by (simp add: getFingerprint_def fp_fields_def fp_tail_def)

lemma split_at_sep:
  "c \<notin> set a \<Longrightarrow> c \<notin> set a' \<Longrightarrow> a @ c # r = a' @ c # r' \<Longrightarrow> a = a' \<and> r = r'"
proof (induction a arbitrary: a')
  case Nil
  then show ?case by (cases a') auto
next
  case (Cons x a)
  then show ?case by (cases a') auto
qed

lemma join_bar_inj:
  "length fs = length fs' \<Longrightarrow> \<forall>f \<in> set fs \<union> set fs'. CHR ''|'' \<notin> set f \<Longrightarrow>
   join_bar fs t = join_bar fs' t' \<Longrightarrow> fs = fs' \<and> t = t'"
proof (induction fs arbitrary: fs')
  case Nil
  then show ?case by simp
next
  case (Cons f fs)
  then obtain g gs where fs': "fs' = g # gs" by (cases fs') auto
  from Cons.prems fs' have "f = g \<and> join_bar fs t = join_bar gs t'"
    using split_at_sep [of "CHR ''|''" f g "join_bar fs t" "join_bar gs t'"] by simp
  with Cons.IH [of gs] Cons.prems fs' show ?case by simp
qed

lemma fp_fields_no_bar: "\<forall>f \<in> set (fp_fields c). CHR ''|'' \<notin> set f"
  by (simp add: fp_fields_def fmt_f0_no_bar fmt_d_no_bar fmt_t_no_bar)

lemma fp_tail_inj:
  "fp_tail c1 = fp_tail c2 \<Longrightarrow>
   ProxyURL c1 = ProxyURL c2 \<and> ProxyTLSSkipVerify c1 = ProxyTLSSkipVerify c2"
proof -
  assume "fp_tail c1 = fp_tail c2"
  then have "rev (fp_tail c1) = rev (fp_tail c2)" by simp
  then show ?thesis
    by (cases "ProxyTLSSkipVerify c1"; cases "ProxyTLSSkipVerify c2")
       (simp_all add: fp_tail_def fmt_t_def)
qed

subsection \<open>The characterisation\<close>

lemma rhe_div_nonneg: "0 \<le> a \<Longrightarrow> 0 < b \<Longrightarrow> 0 \<le> rhe_div a b"
  by (simp add: rhe_div_def Let_def pos_imp_zdiv_nonneg_iff)

lemma round53_nonneg: "0 \<le> a \<Longrightarrow> 0 < b \<Longrightarrow> 0 \<le> fst (round53 a b)"
  by (simp add: round53_def Let_def rhe_div_nonneg)

lemma f64_add_man_nonneg: "0 \<le> f_man (f64_add x y)"
proof -
  have "0 \<le> fst (round53 a b) \<Longrightarrow> 0 \<le> f_man (case round53 a b of (m, e) \<Rightarrow> Float64 s m e)"
    for a b s by (cases "round53 a b") simp
  then show ?thesis
    by (simp add: f64_add_def Let_def round53_nonneg)
qed

lemma round_f0_nonneg: "0 \<le> f_man x \<Longrightarrow> 0 \<le> round_f0 x"
  by (simp add: round_f0_def rhe_div_nonneg)

lemma round_f0_Seconds_nonneg: "0 \<le> round_f0 (Seconds d)"
  by (simp add: Seconds_def Let_def round_f0_nonneg f64_add_man_nonneg)

lemma fmt_f0_Seconds_eq_iff:
  "fmt_f0 (Seconds d1) = fmt_f0 (Seconds d2) \<longleftrightarrow> rounded_seconds d1 = rounded_seconds d2"
proof
  assume "fmt_f0 (Seconds d1) = fmt_f0 (Seconds d2)"
  then show "rounded_seconds d1 = rounded_seconds d2"
    using fmt_f0_inj [of "Seconds d1" "Seconds d2"] round_f0_Seconds_nonneg
    by (simp add: rounded_seconds_def)
next
  assume "rounded_seconds d1 = rounded_seconds d2"
  then show "fmt_f0 (Seconds d1) = fmt_f0 (Seconds d2)"
    by (simp add: rounded_seconds_def fmt_f0_def)
qed

lemma fmt_d_eq_iff: "fmt_d a = fmt_d b \<longleftrightarrow> a = b"
  using fmt_d_inj by blast

lemma fmt_t_eq_iff: "fmt_t a = fmt_t b \<longleftrightarrow> a = b"
  using fmt_t_inj by blast

lemma fp_fields_eq_iff:
  "fp_fields c1 = fp_fields c2 \<longleftrightarrow>
     rounded_seconds (ConnectTimeout c1) = rounded_seconds (ConnectTimeout c2) \<and>
     rounded_seconds (RequestTimeout c1) = rounded_seconds (RequestTimeout c2) \<and>
     rounded_seconds (IdleConnTimeout c1) = rounded_seconds (IdleConnTimeout c2) \<and>
     MaxIdleConns c1 = MaxIdleConns c2 \<and>
     MaxIdleConnsPerHost c1 = MaxIdleConnsPerHost c2 \<and>
     rounded_seconds (ResponseHeaderTimeout c1) = rounded_seconds (ResponseHeaderTimeout c2) \<and>
     DisableCompression c1 = DisableCompression c2 \<and>
     WriteBufferSize c1 = WriteBufferSize c2 \<and>
     ReadBufferSize c1 = ReadBufferSize c2 \<and>
     ForceAttemptHTTP2 c1 = ForceAttemptHTTP2 c2 \<and>
     rounded_seconds (TLSHandshakeTimeout c1) = rounded_seconds (TLSHandshakeTimeout c2) \<and>
     rounded_seconds (ExpectContinueTimeout c1) = rounded_seconds (ExpectContinueTimeout c2)"
  by (simp add: fp_fields_def fmt_f0_Seconds_eq_iff fmt_d_eq_iff fmt_t_eq_iff)

lemma fp_tail_eq_iff:
  "fp_tail c1 = fp_tail c2 \<longleftrightarrow>
     ProxyURL c1 = ProxyURL c2 \<and> ProxyTLSSkipVerify c1 = ProxyTLSSkipVerify c2"
  using fp_tail_inj [of c1 c2] by (auto simp: fp_tail_def)

lemma getFingerprint_eq_iff:
  "getFingerprint c1 = getFingerprint c2 \<longleftrightarrow> same_at_precision c1 c2"
proof -
  have len: "length (fp_fields c1) = length (fp_fields c2)"
    by (simp add: fp_fields_def)
  have nobar: "\<forall>f \<in> set (fp_fields c1) \<union> set (fp_fields c2). CHR ''|'' \<notin> set f"
    using fp_fields_no_bar by blast
  have "getFingerprint c1 = getFingerprint c2 \<longleftrightarrow>
        fp_fields c1 = fp_fields c2 \<and> fp_tail c1 = fp_tail c2"
    using join_bar_inj [OF len nobar] by (auto simp: getFingerprint_join)
  also have "\<dots> \<longleftrightarrow> same_at_precision c1 c2"
    unfolding fp_fields_eq_iff fp_tail_eq_iff same_at_precision_def by blast
  finally show ?thesis .
qed

section \<open>One call of GetClient\<close>

lemma build_client_eq:
  "build_client parse config l =
     (\<lparr>Transport = (new_transport config)
          \<lparr>TLSClientConfig := (if ProxyTLSSkipVerify config
                                then Some \<lparr>InsecureSkipVerify = True\<rparr> else None),
           Proxy := Some (proxy_choice parse config)\<rparr>,
       Timeout = RequestTimeout config\<rparr>,
      l @ tls_entries config @ proxy_entries parse config)"
  by (simp add: build_client_def set_proxy_def configure_tls_def Warnf_def tls_entries_def
      proxy_entries_def proxy_choice_def new_transport_def split: sum.splits)

lemma fst_build_client: "fst (build_client parse config l) = client_for parse config"
  by (simp add: client_for_def build_client_eq)

lemma snd_build_client:
  "snd (build_client parse config l) = l @ tls_entries config @ proxy_entries parse config"
  by (simp add: build_client_eq)

lemma GetClient_hit:
  "clients w (getFingerprint config) = Some p \<Longrightarrow> GetClient parse config w = (p, w)"
  by (simp add: GetClient_def)

lemma GetClient_miss:
  "clients w (getFingerprint config) = None \<Longrightarrow>
   GetClient parse config w =
     (length (heap w),
      w\<lparr>clients := (clients w)(getFingerprint config \<mapsto> length (heap w)),
        heap := heap w @ [client_for parse config],
        log := log w @ tls_entries config @ proxy_entries parse config\<rparr>)"
  by (simp add: GetClient_def slow_path_def build_client_eq client_for_def)

lemma manager_inv_new: "manager_inv parse NewHTTPClientManager"
  by (simp add: manager_inv_def NewHTTPClientManager_def)

lemma manager_inv_GetClient:
  assumes "manager_inv parse w"
  shows "manager_inv parse (snd (GetClient parse config w))"
proof (cases "clients w (getFingerprint config)")
  case (Some p)
  with assms show ?thesis by (simp add: GetClient_hit)
next
  case None
  show ?thesis
    unfolding manager_inv_def
  proof (intro allI impI)
    fix k p
    assume kp: "clients (snd (GetClient parse config w)) k = Some p"
    show "p < length (heap (snd (GetClient parse config w))) \<and>
          (\<exists>c. getFingerprint c = k \<and> heap (snd (GetClient parse config w)) ! p = client_for parse c)"
    proof (cases "k = getFingerprint config")
      case True
      with kp None have "p = length (heap w)" by (simp add: GetClient_miss)
      with True None show ?thesis by (auto simp: GetClient_miss)
    next
      case False
      with kp None have old: "clients w k = Some p" by (simp add: GetClient_miss)
      with assms have "p < length (heap w)"
        and "\<exists>c. getFingerprint c = k \<and> heap w ! p = client_for parse c"
        by (auto simp: manager_inv_def)
      with None show ?thesis by (auto simp: GetClient_miss nth_append)
    qed
  qed
qed

lemma reachable_inv: "reachable parse w \<Longrightarrow> manager_inv parse w"
  by (induction rule: reachable.induct) (simp_all add: manager_inv_new manager_inv_GetClient)

lemma GetClient_cached:
  "clients (snd (GetClient parse config w)) (getFingerprint config) = Some (fst (GetClient parse config w))"
  by (cases "clients w (getFingerprint config)") (simp_all add: GetClient_hit GetClient_miss)

section \<open>Rounding to 53 bits\<close>

text \<open>
  The model of \<open>float64\<close> against the real numbers: the exponent found by \<open>ilog2_quot\<close>
  is the right one, one rounding has a relative error of at most \<open>2 ^ - 53\<close>, and an
  integer below \<open>2 ^ 53\<close> is kept.
\<close>

lemma bit_length_pos:
  "0 < k \<Longrightarrow> \<exists>n. bit_length k = int (Suc n) \<and> 2 ^ n \<le> k \<and> k < 2 ^ Suc n"
proof (induction k rule: bit_length.induct)
  case (1 k)
  show ?case
  proof (cases "k div 2 = 0")
    case True
    with "1.prems" have "k = 1" by presburger
    then have "bit_length k = int (Suc 0) \<and> 2 ^ 0 \<le> k \<and> k < 2 ^ Suc 0"
      by (simp add: bit_length.simps [of 1] bit_length.simps [of 0])
    then show ?thesis by blast
  next
    case False
    with "1.prems" have pos: "0 < k div 2" by presburger
    with "1.IH" "1.prems" obtain n where
      n: "bit_length (k div 2) = int (Suc n)" "2 ^ n \<le> k div 2" "k div 2 < 2 ^ Suc n"
      by auto
    have "bit_length k = int (Suc (Suc n))"
      using "1.prems" n(1) by (simp add: bit_length.simps [of k])
    moreover have "2 ^ Suc n \<le> k" using n(2) by (simp; presburger)
    moreover have "k < 2 ^ Suc (Suc n)" using n(3) by (simp; presburger)
    ultimately show ?thesis by blast
  qed
qed

lemma powi_of_nat_diff:
  "(2::real) powi (int m - int n) = 2 ^ m / 2 ^ n"
  by (simp add: power_int_diff)

lemma ilog2_quot_bounds:
  assumes "0 < a" "0 < b"
  shows "2 powi (ilog2_quot a b) * real_of_int b \<le> real_of_int a
       \<and> real_of_int a < 2 powi (ilog2_quot a b + 1) * real_of_int b"
proof -
  obtain na where na: "bit_length a = int (Suc na)" "2 ^ na \<le> a" "a < 2 ^ Suc na"
    using bit_length_pos [OF assms(1)] by blast
  obtain nb where nb: "bit_length b = int (Suc nb)" "2 ^ nb \<le> b" "b < 2 ^ Suc nb"
    using bit_length_pos [OF assms(2)] by blast
  define k where "k = int na - int nb"
  have k: "bit_length a - bit_length b = k" by (simp add: na nb k_def)
  have ra: "(2::real) ^ na \<le> real_of_int a" "real_of_int a < 2 ^ Suc na"
    using na(2,3) by (metis of_int_le_iff of_int_numeral of_int_power, metis of_int_less_iff of_int_numeral of_int_power)
  have rb: "(2::real) ^ nb \<le> real_of_int b" "real_of_int b < 2 ^ Suc nb"
    using nb(2,3) by (metis of_int_le_iff of_int_numeral of_int_power, metis of_int_less_iff of_int_numeral of_int_power)
  have bpos: "0 < real_of_int b" using assms by simp
  have upper: "real_of_int a < 2 powi (k + 1) * real_of_int b"
  proof -
    have "2 powi (k + 1) * real_of_int b = (2 ^ Suc na / 2 ^ nb) * real_of_int b"
      unfolding k_def using powi_of_nat_diff [of "Suc na" nb] by (simp add: algebra_simps)
    also have "\<dots> \<ge> (2 ^ Suc na / 2 ^ nb) * 2 ^ nb"
      using rb(1) by (intro mult_left_mono) simp_all
    finally have "2 ^ Suc na \<le> 2 powi (k + 1) * real_of_int b" by simp
    with ra(2) show ?thesis by linarith
  qed
  have lower: "2 powi (k - 1) * real_of_int b < real_of_int a"
  proof -
    have "2 powi (k - 1) * real_of_int b = (2 ^ na / 2 ^ Suc nb) * real_of_int b"
      unfolding k_def using powi_of_nat_diff [of na "Suc nb"] by (simp add: algebra_simps)
    also have "\<dots> < (2 ^ na / 2 ^ Suc nb) * 2 ^ Suc nb"
      using rb(2) by (intro mult_strict_left_mono) simp_all
    finally have "2 powi (k - 1) * real_of_int b < 2 ^ na" by simp
    with ra(1) show ?thesis by linarith
  qed
  have test: "(if 0 \<le> k then b * 2 ^ nat k \<le> a else b \<le> a * 2 ^ nat (- k))
              \<longleftrightarrow> 2 powi k * real_of_int b \<le> real_of_int a"
  proof (cases "0 \<le> k")
    case True
    have "b * 2 ^ nat k \<le> a \<longleftrightarrow> real_of_int (b * 2 ^ nat k) \<le> real_of_int a"
      by (simp only: of_int_le_iff)
    also have "real_of_int (b * 2 ^ nat k) = 2 powi k * real_of_int b"
      using True by (simp add: power_int_nonneg_exp)
    finally show ?thesis using True by simp
  next
    case False
    have "b \<le> a * 2 ^ nat (- k) \<longleftrightarrow> real_of_int b \<le> real_of_int (a * 2 ^ nat (- k))"
      by (simp only: of_int_le_iff)
    also have "real_of_int (a * 2 ^ nat (- k)) = real_of_int a * 2 powi (- k)"
      using False by (simp add: power_int_nonneg_exp)
    also have "real_of_int b \<le> real_of_int a * 2 powi (- k) \<longleftrightarrow>
               2 powi k * real_of_int b \<le> real_of_int a"
      by (simp add: power_int_minus field_simps)
    finally show ?thesis using False by simp
  qed
  show ?thesis
  proof (cases "2 powi k * real_of_int b \<le> real_of_int a")
    case True
    then have "ilog2_quot a b = k" using test by (simp add: ilog2_quot_def k)
    with True upper show ?thesis by simp
  next
    case False
    then have "ilog2_quot a b = k - 1" using test by (simp add: ilog2_quot_def k)
    with False lower show ?thesis by simp
  qed
qed

lemma rhe_div_error:
  assumes "0 < b"
  shows "2 * \<bar>rhe_div a b * b - a\<bar> \<le> b"
proof -
  define q where "q = a div b"
  define r where "r = a mod b"
  have a: "a = q * b + r" by (simp add: q_def r_def)
  have r: "0 \<le> r" "r < b" using assms by (simp_all add: r_def)
  have "rhe_div a b = q \<and> 2 * r \<le> b \<or> rhe_div a b = q + 1 \<and> b \<le> 2 * r"
    by (auto simp: rhe_div_def Let_def q_def r_def)
  then show ?thesis
  proof
    assume h: "rhe_div a b = q \<and> 2 * r \<le> b"
    then have "rhe_div a b * b - a = - r" using a by simp
    with h r show ?thesis by simp
  next
    assume h: "rhe_div a b = q + 1 \<and> b \<le> 2 * r"
    then have "rhe_div a b * b - a = b - r" using a by (simp add: algebra_simps)
    with h r show ?thesis by simp
  qed
qed

lemma rhe_div_real_error:
  assumes "0 < b"
  shows "\<bar>real_of_int (rhe_div a b) - real_of_int a / real_of_int b\<bar> \<le> 1 / 2"
proof -
  have bpos: "0 < real_of_int b" using assms by simp
  have "real_of_int (2 * \<bar>rhe_div a b * b - a\<bar>) \<le> real_of_int b"
    using rhe_div_error [OF assms, of a] by (simp only: of_int_le_iff)
  then have "2 * \<bar>real_of_int (rhe_div a b) * real_of_int b - real_of_int a\<bar> \<le> real_of_int b"
    by simp
  moreover have "real_of_int (rhe_div a b) - real_of_int a / real_of_int b
        = (real_of_int (rhe_div a b) * real_of_int b - real_of_int a) / real_of_int b"
    using bpos by (simp add: field_simps)
  ultimately show ?thesis
    using bpos by (simp add: abs_divide field_simps)
qed

lemma int_of_near:
  fixes m s :: int
  assumes "\<bar>real_of_int m - x\<bar> \<le> 1 / 2" "\<bar>real_of_int s - x\<bar> < 1 / 2"
  shows "m = s"
proof -
  have "\<bar>real_of_int m - real_of_int s\<bar> < 1" using assms by linarith
  then have "\<bar>real_of_int (m - s)\<bar> < 1" by simp
  then have "\<bar>m - s\<bar> < 1" by (metis of_int_abs of_int_less_1_iff)
  then show ?thesis by simp
qed

text \<open>The rounding: the mantissa is the scaled quotient rounded to an integer.\<close>

lemma round53_props:
  assumes "0 < a" "0 < b"
  defines "r \<equiv> real_of_int a / real_of_int b"
  shows "\<exists>m e. round53 a b = (m, e) \<and> 0 \<le> m \<and>
           2 powi (e + 52) \<le> r \<and> r < 2 powi (e + 53) \<and>
           \<bar>real_of_int m - r / 2 powi e\<bar> \<le> 1 / 2"
proof -
  define e where "e = ilog2_quot a b - 52"
  have bpos: "0 < real_of_int b" using assms by simp
  have bnd: "2 powi (e + 52) * real_of_int b \<le> real_of_int a"
       "real_of_int a < 2 powi (e + 53) * real_of_int b"
    using ilog2_quot_bounds [OF assms(1,2)] by (simp_all add: e_def add.commute)
  have lo: "2 powi (e + 52) \<le> r" and hi: "r < 2 powi (e + 53)"
    using bnd bpos by (simp_all add: r_def field_simps)
  show ?thesis
  proof (cases "0 \<le> e")
    case True
    define m where "m = rhe_div a (b * 2 ^ nat e)"
    have rd: "round53 a b = (m, e)"
      using assms(1) True by (simp add: round53_def e_def m_def Let_def)
    have B: "0 < b * 2 ^ nat e" using assms by simp
    have "real_of_int a / real_of_int (b * 2 ^ nat e) = r / 2 powi e"
      using True by (simp add: r_def power_int_nonneg_exp)
    then have "\<bar>real_of_int m - r / 2 powi e\<bar> \<le> 1 / 2"
      using rhe_div_real_error [OF B, of a] by (simp add: m_def)
    moreover have "0 \<le> m" using assms B by (simp add: m_def rhe_div_nonneg)
    ultimately show ?thesis using rd lo hi by blast
  next
    case False
    define m where "m = rhe_div (a * 2 ^ nat (- e)) b"
    have rd: "round53 a b = (m, e)"
      using assms(1) False by (simp add: round53_def e_def m_def Let_def)
    have inv: "2 powi e = inverse ((2::real) ^ nat (- e))"
      using False power_int_minus [of "2::real" "- e"] by (simp add: power_int_nonneg_exp)
    have "real_of_int (a * 2 ^ nat (- e)) / real_of_int b = r / 2 powi e"
      unfolding inv by (simp add: r_def divide_inverse)
    then have "\<bar>real_of_int m - r / 2 powi e\<bar> \<le> 1 / 2"
      using rhe_div_real_error [OF assms(2), of "a * 2 ^ nat (- e)"] by (simp add: m_def)
    moreover have "0 \<le> m" using assms by (simp add: m_def rhe_div_nonneg)
    ultimately show ?thesis using rd lo hi by blast
  qed
qed

text \<open>Relative error of one rounding: at most \<open>2 ^ - 53\<close>.\<close>

lemma round53_rel_error:
  assumes "0 < a" "0 < b"
  shows "\<exists>m e. round53 a b = (m, e) \<and> 0 \<le> m \<and>
           \<bar>real_of_int m * 2 powi e - real_of_int a / real_of_int b\<bar>
             \<le> (real_of_int a / real_of_int b) / 2 ^ 53"
proof -
  define r where "r = real_of_int a / real_of_int b"
  obtain m e where me: "round53 a b = (m, e)" "0 \<le> m" "2 powi (e + 52) \<le> r"
      "\<bar>real_of_int m - r / 2 powi e\<bar> \<le> 1 / 2"
    using round53_props [OF assms] unfolding r_def by blast
  have p: "(0::real) < 2 powi e" by simp
  have "real_of_int m * 2 powi e - r = (real_of_int m - r / 2 powi e) * 2 powi e"
    by (simp add: field_simps)
  then have "\<bar>real_of_int m * 2 powi e - r\<bar> = \<bar>real_of_int m - r / 2 powi e\<bar> * 2 powi e"
    by (simp add: abs_mult)
  also have "\<dots> \<le> (1 / 2) * 2 powi e"
    using me(4) p by (intro mult_right_mono) simp_all
  also have "(1 / 2) * 2 powi e = (2::real) powi (e + 52) / 2 ^ 53"
    by (simp add: power_int_add)
  also have "\<dots> \<le> r / 2 ^ 53"
    using me(3) by (simp add: divide_right_mono)
  finally show ?thesis using me(1,2) unfolding r_def by blast
qed

text \<open>An integer below \<open>2 ^ 53\<close> is not changed by the rounding.\<close>

lemma round53_exact_int:
  assumes "0 < a" "0 < b" "real_of_int a / real_of_int b = real_of_int N" "N < 2 ^ 53"
  shows "\<exists>m e. round53 a b = (m, e) \<and> 0 \<le> m \<and> real_of_int m * 2 powi e = real_of_int N"
proof -
  define r where "r = real_of_int a / real_of_int b"
  obtain m e where me: "round53 a b = (m, e)" "0 \<le> m" "2 powi (e + 52) \<le> r"
      "\<bar>real_of_int m - r / 2 powi e\<bar> \<le> 1 / 2"
    using round53_props [OF assms(1,2)] unfolding r_def by blast
  have rN: "r = real_of_int N" using assms(3) by (simp add: r_def)
  have "real_of_int N < 2 ^ 53" using assms(4)
    by (metis of_int_less_iff of_int_numeral of_int_power)
  with me(3) rN have "(2::real) powi (e + 52) < 2 powi 53" by simp
  then have "e + 52 < 53"
    by (intro power_int_le_imp_less_exp [of "2::real"]) simp_all
  then have e: "e \<le> 0" by simp
  have inv: "2 powi e = inverse ((2::real) ^ nat (- e))"
    using e power_int_minus [of "2::real" "- e"] by (simp add: power_int_nonneg_exp)
  have scaled: "r / 2 powi e = real_of_int (N * 2 ^ nat (- e))"
    by (simp add: rN inv divide_inverse)
  have "m = N * 2 ^ nat (- e)"
    using me(4) unfolding scaled by (intro int_of_near [where x = "real_of_int (N * 2 ^ nat (- e))"]) simp_all
  then have "real_of_int m * 2 powi e = real_of_int N"
    by (simp add: inv)
  with me(1,2) show ?thesis by blast
qed

subsection \<open>Conversion, quotient and sum\<close>

lemma powi_neg_eq: "e \<le> 0 \<Longrightarrow> (2::real) powi e = inverse (2 ^ nat (- e))"
  using power_int_minus [of "2::real" "- e"] by (simp add: power_int_nonneg_exp)

lemma powi_split: "e \<le> x \<Longrightarrow> (2::real) ^ nat (x - e) * 2 powi e = 2 powi x"
proof -
  assume "e \<le> x"
  then have "(2::real) ^ nat (x - e) = 2 powi (x - e)" by (simp add: power_int_nonneg_exp)
  then show ?thesis by (simp add: power_int_diff)
qed

lemma f64_of_int_zero: "f64_of_int 0 = Float64 False 0 0"
  by (simp add: f64_of_int_def round53_def)

lemma f64_of_int_exact:
  assumes "\<bar>i\<bar> < 2 ^ 53"
  shows "f_neg (f64_of_int i) = (i < 0) \<and> 0 \<le> f_man (f64_of_int i) \<and>
         f64_mag (f64_of_int i) = real_of_int \<bar>i\<bar>"
proof (cases "i = 0")
  case True
  then show ?thesis by (simp add: f64_of_int_zero f64_mag_def)
next
  case False
  then have pos: "0 < \<bar>i\<bar>" by simp
  have "real_of_int \<bar>i\<bar> / real_of_int 1 = real_of_int \<bar>i\<bar>" by simp
  from round53_exact_int [OF pos _ this assms]
  obtain m e where "round53 \<bar>i\<bar> 1 = (m, e)" "0 \<le> m"
      "real_of_int m * 2 powi e = real_of_int \<bar>i\<bar>"
    by auto
  then show ?thesis by (simp add: f64_of_int_def f64_mag_def)
qed

lemma f64_div_zero: "f_man x = 0 \<Longrightarrow> f64_div x y = Float64 (f_neg x \<noteq> f_neg y) 0 0"
  by (simp add: f64_div_def round53_def Let_def)

lemma f64_div_props:
  assumes "0 < f_man x" "0 < f_man y"
  shows "f_neg (f64_div x y) = (f_neg x \<noteq> f_neg y) \<and> 0 \<le> f_man (f64_div x y) \<and>
         \<bar>f64_mag (f64_div x y) - f64_mag x / f64_mag y\<bar> \<le> (f64_mag x / f64_mag y) / 2 ^ 53"
proof -
  define d where "d = f_exp x - f_exp y"
  define a where "a = f_man x * 2 ^ nat d"
  define b where "b = f_man y * 2 ^ nat (- d)"
  have ab: "0 < a" "0 < b" using assms by (simp_all add: a_def b_def)
  have ratio: "real_of_int a / real_of_int b = f64_mag x / f64_mag y"
  proof (cases "0 \<le> d")
    case True
    then have "real_of_int a / real_of_int b
        = real_of_int (f_man x) * 2 powi d / real_of_int (f_man y)"
      by (simp add: a_def b_def power_int_nonneg_exp)
    then show ?thesis
      by (simp add: f64_mag_def d_def power_int_diff)
  next
    case False
    then have "real_of_int a / real_of_int b
        = real_of_int (f_man x) / (real_of_int (f_man y) * 2 powi (- d))"
      by (simp add: a_def b_def power_int_nonneg_exp)
    then show ?thesis
      by (simp add: f64_mag_def d_def power_int_diff power_int_minus field_simps)
  qed
  obtain m e where me: "round53 a b = (m, e)" "0 \<le> m"
      "\<bar>real_of_int m * 2 powi e - real_of_int a / real_of_int b\<bar>
         \<le> (real_of_int a / real_of_int b) / 2 ^ 53"
    using round53_rel_error [OF ab] by blast
  have "f64_div x y = Float64 (f_neg x \<noteq> f_neg y) m e"
    using me(1) by (simp add: f64_div_def Let_def a_def b_def d_def)
  with me(2,3) show ?thesis by (simp add: f64_mag_def ratio)
qed

text \<open>The sum of two values that do not cancel: one rounding of the exact sum.\<close>

lemma f64_add_rounds:
  assumes "0 \<le> f_man x" "0 \<le> f_man y" "f_neg x = f_neg y \<or> f_man x = 0 \<or> f_man y = 0"
    and nz: "0 < f_man x \<or> 0 < f_man y"
  shows "\<exists>a b m e. 0 < a \<and> 0 < b \<and> real_of_int a / real_of_int b = f64_mag x + f64_mag y \<and>
           round53 a b = (m, e) \<and>
           f64_add x y = Float64 (if 0 < f_man x then f_neg x else f_neg y) m e"
proof -
  define e where "e = min (f_exp x) (f_exp y)"
  define px where "px = f_man x * 2 ^ nat (f_exp x - e)"
  define py where "py = f_man y * 2 ^ nat (f_exp y - e)"
  define s where "s = f64_signed x e + f64_signed y e"
  have p: "0 \<le> px" "0 \<le> py" using assms by (simp_all add: px_def py_def)
  have pnz: "0 < px + py"
    using nz assms(1,2) by (auto simp: px_def py_def intro: add_pos_nonneg add_nonneg_pos)
  have sx: "f64_signed x e = (if f_neg x then - px else px)"
    and sy: "f64_signed y e = (if f_neg y then - py else py)"
    by (simp_all add: f64_signed_def px_def py_def)
  have zero: "f_man x = 0 \<Longrightarrow> px = 0" "f_man y = 0 \<Longrightarrow> py = 0"
    by (simp_all add: px_def py_def)
  have abs_s: "\<bar>s\<bar> = px + py"
    using assms(3) p zero by (auto simp: s_def sx sy)
  have pxpos: "0 < f_man x \<Longrightarrow> 0 < px" by (simp add: px_def)
  have sneg: "s < 0 \<longleftrightarrow> (if 0 < f_man x then f_neg x else f_neg y)"
  proof (cases "0 < f_man x")
    case True
    with pxpos p assms(3) zero show ?thesis by (auto simp: s_def sx sy)
  next
    case False
    with assms(1) have "px = 0" using zero by simp
    with pnz False show ?thesis by (auto simp: s_def sx sy)
  qed
  have snz: "s \<noteq> 0" using abs_s pnz by auto
  have rpx: "real_of_int px * 2 powi e = f64_mag x"
    using powi_split [of e "f_exp x"] by (simp add: px_def f64_mag_def e_def mult.assoc)
  have rpy: "real_of_int py * 2 powi e = f64_mag y"
    using powi_split [of e "f_exp y"] by (simp add: py_def f64_mag_def e_def mult.assoc)
  have total: "real_of_int \<bar>s\<bar> * 2 powi e = f64_mag x + f64_mag y"
    unfolding abs_s using rpx rpy by (simp add: algebra_simps)
  show ?thesis
  proof (cases "0 \<le> e")
    case True
    define a where "a = \<bar>s\<bar> * 2 ^ nat e"
    have a: "0 < a" using snz by (simp add: a_def)
    have ratio: "real_of_int a / real_of_int 1 = f64_mag x + f64_mag y"
      using total True by (simp add: a_def power_int_nonneg_exp)
    obtain m e' where me: "round53 a 1 = (m, e')" by (cases "round53 a 1") auto
    have "f64_add x y = Float64 (s < 0) m e'"
      using me snz True
      by (simp add: f64_add_def Let_def a_def s_def [symmetric] e_def [symmetric])
    with a ratio me sneg
    have "0 < a \<and> 0 < (1::int) \<and> real_of_int a / real_of_int 1 = f64_mag x + f64_mag y \<and>
          round53 a 1 = (m, e') \<and>
          f64_add x y = Float64 (if 0 < f_man x then f_neg x else f_neg y) m e'"
      by simp
    then show ?thesis by blast
  next
    case False
    define b :: int where "b = 2 ^ nat (- e)"
    have b: "0 < b" by (simp add: b_def)
    have ratio: "real_of_int \<bar>s\<bar> / real_of_int b = f64_mag x + f64_mag y"
      using total False powi_neg_eq [of e] by (simp add: b_def divide_inverse)
    obtain m e' where me: "round53 \<bar>s\<bar> b = (m, e')" by (cases "round53 \<bar>s\<bar> b") auto
    have "f64_add x y = Float64 (s < 0) m e'"
      using me snz False
      by (simp add: f64_add_def Let_def b_def s_def [symmetric] e_def [symmetric])
    moreover have "0 < \<bar>s\<bar>" using snz by simp
    ultimately
    have "0 < \<bar>s\<bar> \<and> 0 < b \<and> real_of_int \<bar>s\<bar> / real_of_int b = f64_mag x + f64_mag y \<and>
          round53 \<bar>s\<bar> b = (m, e') \<and>
          f64_add x y = Float64 (if 0 < f_man x then f_neg x else f_neg y) m e'"
      using b ratio me sneg by simp
    then show ?thesis by blast
  qed
qed

lemma f64_add_zero_zero:
  "f_man x = 0 \<Longrightarrow> f_man y = 0 \<Longrightarrow> f64_add x y = Float64 (f_neg x \<and> f_neg y) 0 0"
  by (simp add: f64_add_def Let_def f64_signed_def)

lemma round_f0_near:
  assumes "0 \<le> f_man x" "\<bar>real_of_int s - f64_mag x\<bar> < 1 / 2"
  shows "round_f0 x = s"
proof (cases "0 \<le> f_exp x")
  case True
  then have "f64_mag x = real_of_int (f_man x * 2 ^ nat (f_exp x))"
    by (simp add: f64_mag_def power_int_nonneg_exp)
  then have "f_man x * 2 ^ nat (f_exp x) = s"
    using assms(2) by (intro int_of_near [where x = "f64_mag x"]) simp_all
  with True show ?thesis by (simp add: round_f0_def)
next
  case False
  have b: "(0::int) < 2 ^ nat (- f_exp x)" by simp
  have "real_of_int (f_man x) / real_of_int (2 ^ nat (- f_exp x)) = f64_mag x"
    using False powi_neg_eq [of "f_exp x"] by (simp add: f64_mag_def divide_inverse)
  then have "\<bar>real_of_int (rhe_div (f_man x) (2 ^ nat (- f_exp x))) - f64_mag x\<bar> \<le> 1 / 2"
    using rhe_div_real_error [OF b, of "f_man x"] by simp
  then have "rhe_div (f_man x) (2 ^ nat (- f_exp x)) = s"
    using assms(2) by (rule int_of_near)
  with False show ?thesis by (simp add: round_f0_def)
qed

section \<open>Seconds of a duration, as printed\<close>

lemma sdiv_Second:
  "(k::int) sdiv 1000000000 = (if 0 \<le> k then k div 1000000000 else - ((- k) div 1000000000))"
  by (simp add: signed_divide_int_def sgn_if)

lemma smod_Second:
  "(k::int) smod 1000000000 = (if 0 \<le> k then k mod 1000000000 else - ((- k) mod 1000000000))"
  by (simp add: signed_modulo_int_def sgn_if)

lemma sint64_range: "- 9223372036854775808 \<le> sint (d :: 64 word) \<and> sint d < 9223372036854775808"
  using sint_ge [of d] sint_lt [of d] by simp

lemma sint_word_of_int64:
  "- 9223372036854775808 \<le> z \<Longrightarrow> z < 9223372036854775808 \<Longrightarrow> sint (word_of_int z :: 64 word) = z"
  by (simp add: sint_sbintrunc' signed_take_bit_int_eq_self)

lemma sint_int64_quo: "sint (int64_quo d Second) = sint d sdiv 1000000000"
proof -
  define k where "k = sint d"
  have k: "- 9223372036854775808 \<le> k" "k < 9223372036854775808"
    using sint64_range [of d] by (simp_all add: k_def)
  have dv: "0 \<le> j \<Longrightarrow> 0 \<le> j div 1000000000 \<and> j div 1000000000 \<le> j" for j :: int
    using zdiv_mono2 [of j 1 1000000000] by (simp add: pos_imp_zdiv_nonneg_iff)
  have "- 9223372036854775808 \<le> k sdiv 1000000000 \<and> k sdiv 1000000000 < 9223372036854775808"
  proof (cases "0 \<le> k")
    case True
    with dv [of k] k show ?thesis by (simp add: sdiv_Second)
  next
    case False
    with dv [of "- k"] k show ?thesis by (simp add: sdiv_Second)
  qed
  then show ?thesis
    by (simp add: int64_quo_def Second_def sint_word_of_int64 k_def)
qed

lemma sint_int64_rem: "sint (int64_rem d Second) = sint d smod 1000000000"
proof -
  define k where "k = sint d"
  have md: "0 \<le> j mod 1000000000 \<and> j mod 1000000000 < 1000000000" for j :: int
    by simp
  have "- 9223372036854775808 \<le> k smod 1000000000 \<and> k smod 1000000000 < 9223372036854775808"
  proof (cases "0 \<le> k")
    case True
    then have e: "k smod 1000000000 = k mod 1000000000" by (simp add: smod_Second)
    show ?thesis unfolding e using md [of k] by linarith
  next
    case False
    then have e: "k smod 1000000000 = - ((- k) mod 1000000000)" by (simp add: smod_Second)
    show ?thesis unfolding e using md [of "- k"] by linarith
  qed
  then show ?thesis
    by (simp add: int64_rem_def Second_def sint_word_of_int64 k_def)
qed

lemma Seconds_eq:
  "Seconds d = f64_add (f64_of_int (sint d sdiv 1000000000))
     (f64_div (f64_of_int (sint d smod 1000000000)) (Float64 False 1000000000 0))"
  by (simp add: Seconds_def Let_def sint_int64_quo sint_int64_rem)

lemma round_f0_zero: "round_f0 (Float64 b 0 0) = 0"
  by (simp add: round_f0_def)

text \<open>Adding a zero to an integer below \<open>2 ^ 53\<close> gives that integer back.\<close>

lemma add_zero_rounded:
  assumes "\<bar>k\<bar> < 2 ^ 53"
  shows "f_neg (f64_add (f64_of_int k) (Float64 False 0 0)) = (k < 0) \<and>
         round_f0 (f64_add (f64_of_int k) (Float64 False 0 0)) = \<bar>k\<bar>"
proof (cases "k = 0")
  case True
  then show ?thesis
    by (simp add: f64_of_int_zero f64_add_zero_zero round_f0_zero)
next
  case False
  define X where "X = f64_of_int k"
  define Y where "Y = Float64 False 0 0"
  have X: "f_neg X = (k < 0)" "0 \<le> f_man X" "f64_mag X = real_of_int \<bar>k\<bar>"
    using f64_of_int_exact [OF assms] by (simp_all add: X_def)
  have Xpos: "0 < f_man X"
  proof (rule ccontr)
    assume "\<not> 0 < f_man X"
    with X(2) have "f_man X = 0" by simp
    then have "f64_mag X = 0" by (simp add: f64_mag_def)
    with X(3) False show False by simp
  qed
  have Y: "f_man Y = 0" "f64_mag Y = 0" by (simp_all add: Y_def f64_mag_def)
  obtain a b m e where r: "0 < a" "0 < b"
      "real_of_int a / real_of_int b = f64_mag X + f64_mag Y"
      "round53 a b = (m, e)" "f64_add X Y = Float64 (if 0 < f_man X then f_neg X else f_neg Y) m e"
    using f64_add_rounds [of X Y] X(2) Xpos Y(1) by auto
  have "real_of_int a / real_of_int b = real_of_int \<bar>k\<bar>" using r(3) X(3) Y(2) by simp
  from round53_exact_int [OF r(1,2) this assms] r(4)
  have m: "0 \<le> m" "real_of_int m * 2 powi e = real_of_int \<bar>k\<bar>" by auto
  have R: "f64_add X Y = Float64 (k < 0) m e" using r(5) Xpos X(1) by simp
  have "round_f0 (Float64 (k < 0) m e) = \<bar>k\<bar>"
    using m by (intro round_f0_near) (simp_all add: f64_mag_def)
  with R show ?thesis by (simp add: X_def Y_def)
qed

lemma whole_second_bound:
  assumes "sint (d :: 64 word) = k * 1000000000"
  shows "\<bar>k\<bar> < 2 ^ 53"
  using sint64_range [of d] assms by (simp; linarith)

lemma rounded_seconds_whole:
  assumes "sint d = k * 1000000000"
  shows "rounded_seconds d = (k < 0, \<bar>k\<bar>)"
proof -
  have q: "sint d sdiv 1000000000 = k" and r: "sint d smod 1000000000 = 0"
    unfolding sdiv_Second smod_Second assms by (cases "0 \<le> k"; simp)+
  have "Seconds d = f64_add (f64_of_int k) (Float64 False 0 0)"
    by (simp add: Seconds_eq q r f64_of_int_zero f64_div_zero)
  then show ?thesis
    using add_zero_rounded [OF whole_second_bound [OF assms]]
    by (simp add: rounded_seconds_def)
qed

lemma f_man_pos_of_mag: "0 \<le> f_man x \<Longrightarrow> 0 < f64_mag x \<Longrightarrow> 0 < f_man x"
  by (cases "f_man x = 0") (simp_all add: f64_mag_def)

text \<open>
  A duration that is not negative, below \<open>2 ^ 23\<close> seconds, with less than half a second
  beyond its whole seconds, is printed as its whole seconds.
\<close>

lemma rounded_seconds_below_half:
  assumes nonneg: "0 \<le> sint d"
    and small: "sint d div 1000000000 < 2 ^ 23"
    and below: "sint d mod 1000000000 < 500000000"
  shows "rounded_seconds d = (False, sint d div 1000000000)"
proof -
  define s where "s = sint d div 1000000000"
  define n where "n = sint d mod 1000000000"
  have s0: "0 \<le> s" using nonneg by (simp add: s_def pos_imp_zdiv_nonneg_iff)
  have n0: "0 \<le> n" by (simp add: n_def)
  have s53: "\<bar>s\<bar> < 2 ^ 53" using s0 small by (simp add: s_def)
  have n53: "\<bar>n\<bar> < 2 ^ 53" using n0 below by (simp add: n_def)
  have sec: "Seconds d = f64_add (f64_of_int s)
       (f64_div (f64_of_int n) (Float64 False 1000000000 0))"
    using nonneg by (simp add: Seconds_eq sdiv_Second smod_Second s_def n_def)
  show ?thesis
  proof (cases "n = 0")
    case True
    then have "Seconds d = f64_add (f64_of_int s) (Float64 False 0 0)"
      by (simp add: sec f64_of_int_zero f64_div_zero)
    then show ?thesis
      using add_zero_rounded [OF s53] s0 by (simp add: rounded_seconds_def s_def)
  next
    case False
    define X where "X = f64_of_int s"
    define N where "N = f64_of_int n"
    define C where "C = Float64 False 1000000000 0"
    define Y where "Y = f64_div N C"
    define R where "R = f64_add X Y"
    define u :: real where "u = 1 / 2 ^ 53"
    have X: "\<not> f_neg X" "0 \<le> f_man X" "f64_mag X = real_of_int s"
      using f64_of_int_exact [OF s53] s0 by (simp_all add: X_def)
    have N: "\<not> f_neg N" "0 \<le> f_man N" "f64_mag N = real_of_int n"
      using f64_of_int_exact [OF n53] n0 by (simp_all add: N_def)
    have npos: "0 < real_of_int n" using False n0 by simp
    have Npos: "0 < f_man N" using N npos by (intro f_man_pos_of_mag) simp_all
    have C: "\<not> f_neg C" "0 < f_man C" "f64_mag C = 1000000000"
      by (simp_all add: C_def f64_mag_def)
    define q where "q = real_of_int n / 1000000000"
    have Y: "\<not> f_neg Y" "0 \<le> f_man Y" "\<bar>f64_mag Y - q\<bar> \<le> q * u"
      using f64_div_props [OF Npos C(2)] N(1,3) C(1,3) by (simp_all add: Y_def q_def u_def)
    have qpos: "0 < q" using npos by (simp add: q_def)
    have "real_of_int n \<le> 499999999" using below by (simp add: n_def)
    then have qle: "q \<le> 499999999 / 1000000000" by (simp add: q_def)
    have u_val: "u = 1 / 9007199254740992" by (simp add: u_def)
    have Yb: "f64_mag Y \<le> q + q * u" "q - q * u \<le> f64_mag Y"
      using Y(3) by (simp_all add: abs_le_iff)
    have "q * u < q" using qpos by (simp add: u_val)
    with Yb(2) have Ymag_pos: "0 < f64_mag Y" by linarith
    have Ypos: "0 < f_man Y" using Y(2) Ymag_pos by (rule f_man_pos_of_mag)
    obtain a b m e where r: "0 < a" "0 < b"
        "real_of_int a / real_of_int b = f64_mag X + f64_mag Y"
        "round53 a b = (m, e)"
        "R = Float64 (if 0 < f_man X then f_neg X else f_neg Y) m e"
      using f64_add_rounds [of X Y] X(1,2) Y(1,2) Ypos unfolding R_def by auto
    define S where "S = real_of_int s + f64_mag Y"
    have ratio: "real_of_int a / real_of_int b = S" using r(3) X(3) by (simp add: S_def)
    from round53_rel_error [OF r(1,2)] r(4)
    have m: "0 \<le> m" "\<bar>real_of_int m * 2 powi e - S\<bar> \<le> S * u"
      by (auto simp: ratio u_def)
    have Rneg: "\<not> f_neg R" using r(5) X(1) Y(1) by simp
    have Rman: "0 \<le> f_man R" using r(5) m(1) by simp
    have Rmag: "\<bar>f64_mag R - S\<bar> \<le> S * u" using r(5) m(2) by (simp add: f64_mag_def)
    define t where "t = S * u"
    define c :: real where "c = 499999999 / 1000000000"
    have sle: "real_of_int s \<le> 8388607" using small by (simp add: s_def)
    have s0r: "0 \<le> real_of_int s" using s0 by simp
    have Rb: "f64_mag R \<le> S + t" "S - t \<le> f64_mag R"
      using Rmag by (simp_all add: abs_le_iff t_def)
    have qc: "q \<le> c" using qle by (simp add: c_def)
    have u0: "0 \<le> u" by (simp add: u_def)
    have "q * u \<le> 1 * u" using qc u0 by (intro mult_right_mono) (simp_all add: c_def)
    with Yb(1) qc have F1: "f64_mag Y \<le> c + u" by linarith
    have c1: "c + u \<le> 1" by (simp add: c_def u_val)
    have "S \<le> 8388608" using sle F1 c1 by (simp add: S_def)
    then have "S * u \<le> 8388608 * u" using u0 by (intro mult_right_mono)
    also have "8388608 * u = 1 / 1073741824" by (simp add: u_val)
    finally have F3: "t \<le> 1 / 1073741824" by (simp add: t_def)
    have F4: "0 \<le> t" using s0r Ymag_pos u0 by (simp add: t_def S_def)
    have num: "c + u + 1 / 1073741824 < 1 / 2" by (simp add: c_def u_val)
    have up: "f64_mag R - real_of_int s < 1 / 2"
      using Rb(1) F1 F3 num by (simp add: S_def)
    have down: "real_of_int s - f64_mag R < 1 / 2"
      using Rb(2) Ymag_pos F3 by (simp add: S_def)
    have near: "\<bar>real_of_int s - f64_mag R\<bar> < 1 / 2"
      using up down by linarith
    have "round_f0 R = s" using Rman near by (rule round_f0_near)
    with Rneg show ?thesis
      by (simp add: rounded_seconds_def sec R_def X_def Y_def N_def C_def s_def)
  qed
qed

section \<open>Fingerprints of some configurations\<close>

lemma example_fingerprint:
  "getFingerprint example_config =
     ''ct:15s|rt:600s|it:120s|mic:100|mich:50|rht:600s|dc:false|wbs:32768|rbs:32768|fh2:true|tlst:15s|ect:1s|proxy:|ptls:false''"
  by code_simp

lemma example_fingerprint_1200ms:
  "getFingerprint (example_config\<lparr>ConnectTimeout := 1200000000\<rparr>) =
     ''ct:1s|rt:600s|it:120s|mic:100|mich:50|rht:600s|dc:false|wbs:32768|rbs:32768|fh2:true|tlst:15s|ect:1s|proxy:|ptls:false''"
  by code_simp

lemma example_fingerprint_1700ms:
  "getFingerprint (example_config\<lparr>ConnectTimeout := 1700000000\<rparr>) =
     ''ct:2s|rt:600s|it:120s|mic:100|mich:50|rht:600s|dc:false|wbs:32768|rbs:32768|fh2:true|tlst:15s|ect:1s|proxy:|ptls:false''"
  by code_simp

lemma example_fingerprint_1500ms:
  "getFingerprint (example_config\<lparr>ConnectTimeout := 1500000000\<rparr>) =
     ''ct:2s|rt:600s|it:120s|mic:100|mich:50|rht:600s|dc:false|wbs:32768|rbs:32768|fh2:true|tlst:15s|ect:1s|proxy:|ptls:false''"
  by code_simp

lemma example_fingerprint_2500ms:
  "getFingerprint (example_config\<lparr>ConnectTimeout := 2500000000\<rparr>) =
     ''ct:2s|rt:600s|it:120s|mic:100|mich:50|rht:600s|dc:false|wbs:32768|rbs:32768|fh2:true|tlst:15s|ect:1s|proxy:|ptls:false''"
  by code_simp

lemma example_fingerprint_minus_400ms:
  "getFingerprint (example_config\<lparr>ConnectTimeout := - 400000000\<rparr>) =
     ''ct:-0s|rt:600s|it:120s|mic:100|mich:50|rht:600s|dc:false|wbs:32768|rbs:32768|fh2:true|tlst:15s|ect:1s|proxy:|ptls:false''"
  by code_simp

lemma differ_example_1200_1700:
  "differ_only_below_second (example_config\<lparr>ConnectTimeout := 1200000000\<rparr>)
     (example_config\<lparr>ConnectTimeout := 1700000000\<rparr>)"
  by code_simp

subsection \<open>Whole seconds and durations below the half\<close>

lemma sint_inj64: "sint (a :: 64 word) = sint b \<Longrightarrow> a = b"
  by (simp add: signed_word_eqI)

lemma int64_rem_zero_iff: "int64_rem d Second = 0 \<longleftrightarrow> sint d mod 1000000000 = 0"
proof -
  have "int64_rem d Second = 0 \<longleftrightarrow> sint (int64_rem d Second) = 0"
    using sint_inj64 [of "int64_rem d Second" 0] by auto
  also have "\<dots> \<longleftrightarrow> sint d mod 1000000000 = 0"
    unfolding sint_int64_rem smod_Second
    by (cases "0 \<le> sint d") (auto simp: zmod_zminus1_eq_if)
  finally show ?thesis .
qed

lemma whole_seconds_mult:
  assumes "whole_seconds d"
  shows "sint d = (sint d div 1000000000) * 1000000000"
  using assms div_mult_mod_eq [of "sint d" 1000000000]
  by (simp add: whole_seconds_def int64_rem_zero_iff)

lemma rounded_seconds_whole_inj:
  assumes "whole_seconds d1" "whole_seconds d2" "rounded_seconds d1 = rounded_seconds d2"
  shows "d1 = d2"
proof -
  define k1 where "k1 = sint d1 div 1000000000"
  define k2 where "k2 = sint d2 div 1000000000"
  have s1: "sint d1 = k1 * 1000000000" and s2: "sint d2 = k2 * 1000000000"
    using whole_seconds_mult assms(1,2) by (simp_all add: k1_def k2_def)
  have "(k1 < 0, \<bar>k1\<bar>) = (k2 < 0, \<bar>k2\<bar>)"
    using assms(3) rounded_seconds_whole [OF s1] rounded_seconds_whole [OF s2] by simp
  then have "k1 = k2" by auto
  with s1 s2 show ?thesis by (simp add: sint_inj64)
qed

lemma below_half_rounded:
  assumes "below_half d"
  shows "rounded_seconds d = (False, sint (int64_quo d Second))"
proof -
  have n: "0 \<le> sint d" and b: "sint d < 8388608 * 1000000000"
    and r: "sint (int64_rem d Second) < 500000000"
    using assms by (simp_all add: below_half_def)
  have "sint d div 1000000000 < 8388608" using b by simp
  then have small: "sint d div 1000000000 < 2 ^ 23" by simp
  have below: "sint d mod 1000000000 < 500000000"
    using r n by (simp add: sint_int64_rem smod_Second)
  show ?thesis
    using rounded_seconds_below_half [OF n small below] n
    by (simp add: sint_int64_quo sdiv_Second)
qed

lemma duration_fields_all:
  "list_all P duration_fields \<longleftrightarrow>
     P ConnectTimeout \<and> P RequestTimeout \<and> P Config.IdleConnTimeout \<and>
     P Config.ResponseHeaderTimeout \<and> P Config.TLSHandshakeTimeout \<and>
     P Config.ExpectContinueTimeout"
  by (simp add: duration_fields_def)

lemma same_at_precision_alt:
  "same_at_precision c1 c2 \<longleftrightarrow>
     same_other_fields c1 c2 \<and>
     list_all (\<lambda>f. rounded_seconds (f c1) = rounded_seconds (f c2)) duration_fields"
  unfolding same_at_precision_def same_other_fields_def duration_fields_all by blast

text \<open>
  Durations that are not negative, below \<open>2 ^ 23\<close> seconds and less than half a second
  beyond their whole seconds are printed as their whole seconds, so such configurations
  collapse.
\<close>

lemma getFingerprint_below_half:
  assumes "differ_only_below_second c1 c2"
    and "list_all (\<lambda>f. below_half (f c1) \<and> below_half (f c2)) duration_fields"
  shows "getFingerprint c1 = getFingerprint c2"
proof -
  have "list_all (\<lambda>f. rounded_seconds (f c1) = rounded_seconds (f c2)) duration_fields"
    using assms unfolding differ_only_below_second_def duration_fields_all
    by (simp add: below_half_rounded)
  with assms(1) show ?thesis
    by (simp add: getFingerprint_eq_iff same_at_precision_alt differ_only_below_second_def)
qed

section \<open>Claims about the fingerprint\<close>

text \<open>
  \<^bold>\<open>Claim C9.\<close> The fingerprint is deterministic: it is a function of the fourteen field
  values alone. Two configurations with the same field values, wherever they are stored, have
  the same fingerprint, and in every state of the manager, with every behaviour of
  \<open>url.Parse\<close>, \<open>GetClient\<close> files the client of the one under the fingerprint of the other.
\<close>

theorem getFingerprint_deterministic:
  assumes "ConnectTimeout c1 = ConnectTimeout c2" "RequestTimeout c1 = RequestTimeout c2"
    "Config.IdleConnTimeout c1 = Config.IdleConnTimeout c2"
    "Config.MaxIdleConns c1 = Config.MaxIdleConns c2"
    "Config.MaxIdleConnsPerHost c1 = Config.MaxIdleConnsPerHost c2"
    "Config.ResponseHeaderTimeout c1 = Config.ResponseHeaderTimeout c2"
    "Config.DisableCompression c1 = Config.DisableCompression c2"
    "Config.WriteBufferSize c1 = Config.WriteBufferSize c2"
    "Config.ReadBufferSize c1 = Config.ReadBufferSize c2"
    "Config.ForceAttemptHTTP2 c1 = Config.ForceAttemptHTTP2 c2"
    "Config.TLSHandshakeTimeout c1 = Config.TLSHandshakeTimeout c2"
    "Config.ExpectContinueTimeout c1 = Config.ExpectContinueTimeout c2"
    "ProxyURL c1 = ProxyURL c2" "ProxyTLSSkipVerify c1 = ProxyTLSSkipVerify c2"
  shows "getFingerprint c1 = getFingerprint c2 \<and>
         clients (snd (GetClient parse c1 w)) (getFingerprint c2) = Some (fst (GetClient parse c1 w))"
proof -
  have "getFingerprint c1 = getFingerprint c2"
    using assms by (simp add: getFingerprint_def)
  then show ?thesis using GetClient_cached [of parse c1 w] by simp
qed

theorem getFingerprint_deterministic_witness:
  "Config.MaxIdleConns example_config = Config.MaxIdleConns (example_config\<lparr>MaxIdleConns := 100\<rparr>) \<and>
   getFingerprint example_config = getFingerprint (example_config\<lparr>MaxIdleConns := 100\<rparr>) \<and>
   clients (snd (GetClient example_parse example_config NewHTTPClientManager))
     (getFingerprint (example_config\<lparr>MaxIdleConns := 100\<rparr>)) =
   Some (fst (GetClient example_parse example_config NewHTTPClientManager))"
proof -
  have m: "Config.MaxIdleConns example_config = Config.MaxIdleConns (example_config\<lparr>MaxIdleConns := 100\<rparr>)"
    by (simp add: example_config_def)
  from getFingerprint_deterministic [of example_config "example_config\<lparr>MaxIdleConns := 100\<rparr>"
      example_parse NewHTTPClientManager] m
  show ?thesis by simp
qed

text \<open>
  The claim C3 as it is written fails: 1.2 s and 1.7 s have the same whole second and
  differ below it, yet \<open>%.0f\<close> rounds \<open>Seconds()\<close> to the nearest integer and prints
  \<open>ct:1s\<close> for the one and \<open>ct:2s\<close> for the other.
\<close>

theorem subsecond_collapse_counterexample:
  "differ_only_below_second (example_config\<lparr>ConnectTimeout := 1200000000\<rparr>)
     (example_config\<lparr>ConnectTimeout := 1700000000\<rparr>) \<and>
   getFingerprint (example_config\<lparr>ConnectTimeout := 1200000000\<rparr>) \<noteq>
   getFingerprint (example_config\<lparr>ConnectTimeout := 1700000000\<rparr>)"
  by (simp add: differ_example_1200_1700 example_fingerprint_1200ms example_fingerprint_1700ms)

text \<open>
  \<^bold>\<open>Claim C3, amended.\<close> Two configurations that are the same but for the part of their
  durations below one second have the same fingerprint exactly when \<open>%.0f\<close> shows every
  duration field alike in both: the same sign and the same value of \<open>Seconds()\<close> rounded to
  the nearest whole number, a tie going to the even one. So 1.6 s and 1.9 s collapse, as do
  -1.2 s and -1.4 s, and a field left as it is never separates two fingerprints, whatever lies
  below its second; 1.2 s and 1.7 s are kept apart.
\<close>

theorem subsecond_collapse_iff:
  assumes "differ_only_below_second c1 c2"
  shows "getFingerprint c1 = getFingerprint c2 \<longleftrightarrow>
         list_all (\<lambda>f. rounded_seconds (f c1) = rounded_seconds (f c2)) duration_fields"
  using assms
  by (simp add: getFingerprint_eq_iff same_at_precision_alt differ_only_below_second_def)

theorem subsecond_collapse_iff_witness:
  "differ_only_below_second
     (example_config\<lparr>ConnectTimeout := 1600000000, RequestTimeout := - 1200000000,
        ResponseHeaderTimeout := 600700000000\<rparr>)
     (example_config\<lparr>ConnectTimeout := 1900000000, RequestTimeout := - 1400000000,
        ResponseHeaderTimeout := 600700000000\<rparr>) \<and>
   ConnectTimeout (example_config\<lparr>ConnectTimeout := 1600000000, RequestTimeout := - 1200000000,
        ResponseHeaderTimeout := 600700000000\<rparr>) \<noteq>
   ConnectTimeout (example_config\<lparr>ConnectTimeout := 1900000000, RequestTimeout := - 1400000000,
        ResponseHeaderTimeout := 600700000000\<rparr>) \<and>
   RequestTimeout (example_config\<lparr>ConnectTimeout := 1600000000, RequestTimeout := - 1200000000,
        ResponseHeaderTimeout := 600700000000\<rparr>) \<noteq>
   RequestTimeout (example_config\<lparr>ConnectTimeout := 1900000000, RequestTimeout := - 1400000000,
        ResponseHeaderTimeout := 600700000000\<rparr>) \<and>
   rounded_seconds 1600000000 = (False, 2) \<and> rounded_seconds 1900000000 = (False, 2) \<and>
   rounded_seconds (- 1200000000) = (True, 1) \<and> rounded_seconds (- 1400000000) = (True, 1) \<and>
   rounded_seconds 600700000000 = (False, 601) \<and>
   getFingerprint (example_config\<lparr>ConnectTimeout := 1600000000, RequestTimeout := - 1200000000,
        ResponseHeaderTimeout := 600700000000\<rparr>) =
   getFingerprint (example_config\<lparr>ConnectTimeout := 1900000000, RequestTimeout := - 1400000000,
        ResponseHeaderTimeout := 600700000000\<rparr>)"
proof -
  define c1 where "c1 = example_config\<lparr>ConnectTimeout := 1600000000,
    RequestTimeout := - 1200000000, ResponseHeaderTimeout := 600700000000\<rparr>"
  define c2 where "c2 = example_config\<lparr>ConnectTimeout := 1900000000,
    RequestTimeout := - 1400000000, ResponseHeaderTimeout := 600700000000\<rparr>"
  have h1: "differ_only_below_second c1 c2"
    unfolding c1_def c2_def by code_simp
  have r1: "rounded_seconds 1600000000 = (False, 2)" by code_simp
  have r2: "rounded_seconds 1900000000 = (False, 2)" by code_simp
  have r3: "rounded_seconds (- 1200000000) = (True, 1)" by code_simp
  have r4: "rounded_seconds (- 1400000000) = (True, 1)" by code_simp
  have r5: "rounded_seconds 600700000000 = (False, 601)" by code_simp
  have h2: "list_all (\<lambda>f. rounded_seconds (f c1) = rounded_seconds (f c2)) duration_fields"
    by (simp add: c1_def c2_def duration_fields_def r1 r2 r3 r4)
  have h3: "ConnectTimeout c1 \<noteq> ConnectTimeout c2" "RequestTimeout c1 \<noteq> RequestTimeout c2"
    by (simp_all add: c1_def c2_def)
  from subsecond_collapse_iff [OF h1] h2 have "getFingerprint c1 = getFingerprint c2"
    by simp
  with h1 h3 r1 r2 r3 r4 r5 show ?thesis
    unfolding c1_def c2_def by simp
qed

text \<open>
  The claim C4 as it is written fails: 1.5 s and 2.5 s differ by a whole second, and in
  their whole seconds, yet both are printed \<open>ct:2s\<close>, since \<open>%.0f\<close> rounds a tie to
  the even neighbour.
\<close>

theorem discrimination_counterexample:
  "ConnectTimeout (example_config\<lparr>ConnectTimeout := 2500000000\<rparr>) =
     ConnectTimeout (example_config\<lparr>ConnectTimeout := 1500000000\<rparr>) + Second \<and>
   int64_quo (ConnectTimeout (example_config\<lparr>ConnectTimeout := 1500000000\<rparr>)) Second \<noteq>
     int64_quo (ConnectTimeout (example_config\<lparr>ConnectTimeout := 2500000000\<rparr>)) Second \<and>
   getFingerprint (example_config\<lparr>ConnectTimeout := 1500000000\<rparr>) =
   getFingerprint (example_config\<lparr>ConnectTimeout := 2500000000\<rparr>)"
proof -
  have "int64_quo 1500000000 Second \<noteq> int64_quo 2500000000 Second"
    by code_simp
  then show ?thesis
    by (simp add: example_fingerprint_1500ms example_fingerprint_2500ms Second_def)
qed

text \<open>
  \<^bold>\<open>Claim C4, amended.\<close> Two fingerprints are equal exactly when the configurations agree in
  every count, every boolean and the proxy string, whatever text that string holds, and every
  duration has the same sign and the same value of \<open>Seconds()\<close> rounded to the nearest whole
  number, ties to even. Configurations whose durations are all whole seconds have equal
  fingerprints only when they are equal.
\<close>

theorem fingerprint_discrimination:
  "(getFingerprint c1 = getFingerprint c2 \<longleftrightarrow> same_at_precision c1 c2) \<and>
   (list_all (\<lambda>f. whole_seconds (f c1) \<and> whole_seconds (f c2)) duration_fields \<longrightarrow>
      (getFingerprint c1 = getFingerprint c2 \<longleftrightarrow> c1 = c2))"
proof (intro conjI impI)
  show "getFingerprint c1 = getFingerprint c2 \<longleftrightarrow> same_at_precision c1 c2"
    by (rule getFingerprint_eq_iff)
next
  assume w: "list_all (\<lambda>f. whole_seconds (f c1) \<and> whole_seconds (f c2)) duration_fields"
  show "getFingerprint c1 = getFingerprint c2 \<longleftrightarrow> c1 = c2"
  proof
    assume "getFingerprint c1 = getFingerprint c2"
    then have s: "same_at_precision c1 c2" by (simp add: getFingerprint_eq_iff)
    then have d: "ConnectTimeout c1 = ConnectTimeout c2" "RequestTimeout c1 = RequestTimeout c2"
      "Config.IdleConnTimeout c1 = Config.IdleConnTimeout c2"
      "Config.ResponseHeaderTimeout c1 = Config.ResponseHeaderTimeout c2"
      "Config.TLSHandshakeTimeout c1 = Config.TLSHandshakeTimeout c2"
      "Config.ExpectContinueTimeout c1 = Config.ExpectContinueTimeout c2"
      using w unfolding duration_fields_all same_at_precision_def
      by (auto intro: rounded_seconds_whole_inj)
    from s have "same_other_fields c1 c2"
      by (simp add: same_at_precision_alt)
    with d show "c1 = c2"
      by (intro Config.equality) (simp_all add: same_other_fields_def)
  next
    assume "c1 = c2"
    then show "getFingerprint c1 = getFingerprint c2" by simp
  qed
qed

theorem fingerprint_discrimination_witness:
  "list_all (\<lambda>f. whole_seconds (f example_config) \<and>
       whole_seconds (f (example_config\<lparr>IdleConnTimeout := 121 * Second\<rparr>))) duration_fields \<and>
   example_config \<noteq> example_config\<lparr>IdleConnTimeout := 121 * Second\<rparr> \<and>
   getFingerprint example_config \<noteq> getFingerprint (example_config\<lparr>IdleConnTimeout := 121 * Second\<rparr>)"
proof -
  have h: "list_all (\<lambda>f. whole_seconds (f example_config) \<and>
       whole_seconds (f (example_config\<lparr>IdleConnTimeout := 121 * Second\<rparr>))) duration_fields"
    by code_simp
  have n: "Config.IdleConnTimeout example_config \<noteq>
           Config.IdleConnTimeout (example_config\<lparr>IdleConnTimeout := 121 * Second\<rparr>)"
    by (simp add: example_config_def Second_def)
  have ne: "example_config \<noteq> example_config\<lparr>IdleConnTimeout := 121 * Second\<rparr>"
  proof
    assume "example_config = example_config\<lparr>IdleConnTimeout := 121 * Second\<rparr>"
    then have "Config.IdleConnTimeout example_config =
           Config.IdleConnTimeout (example_config\<lparr>IdleConnTimeout := 121 * Second\<rparr>)"
      by (rule arg_cong)
    with n show False by simp
  qed
  from fingerprint_discrimination [of example_config "example_config\<lparr>IdleConnTimeout := 121 * Second\<rparr>"] h ne
  show ?thesis by blast
qed

lemma GetClient_clients_mono:
  "clients w k = Some p \<Longrightarrow> clients (snd (GetClient parse config w)) k = Some p"
  by (cases "clients w (getFingerprint config)") (auto simp: GetClient_hit GetClient_miss)

lemma GetClient_dom:
  "dom (clients (snd (GetClient parse config w))) \<subseteq> insert (getFingerprint config) (dom (clients w))"
  by (cases "clients w (getFingerprint config)") (auto simp: GetClient_hit GetClient_miss)

lemma GetClient_heap_prefix:
  "take (length (heap w)) (heap (snd (GetClient parse config w))) = heap w"
  by (cases "clients w (getFingerprint config)") (auto simp: GetClient_hit GetClient_miss)

lemma GetClient_calls_mono:
  "clients w k = Some p \<Longrightarrow> clients (GetClient_calls parse configs w) k = Some p"
  by (induction configs arbitrary: w) (simp_all add: GetClient_clients_mono)

lemma GetClient_calls_heap_prefix:
  "take (length (heap w)) (heap (GetClient_calls parse configs w)) = heap w"
proof (induction configs arbitrary: w)
  case Nil
  then show ?case by simp
next
  case (Cons config configs)
  define w1 where "w1 = snd (GetClient parse config w)"
  have 1: "take (length (heap w1)) (heap (GetClient_calls parse configs w1)) = heap w1"
    using Cons.IH by simp
  have 2: "take (length (heap w)) (heap w1) = heap w"
    by (simp add: w1_def GetClient_heap_prefix)
  have le: "length (heap w) \<le> length (heap w1)"
    unfolding w1_def
    by (cases "clients w (getFingerprint config)") (auto simp: GetClient_hit GetClient_miss)
  have "take (length (heap w)) (heap (GetClient_calls parse configs w1))
      = take (length (heap w)) (take (length (heap w1)) (heap (GetClient_calls parse configs w1)))"
    using le by (simp add: min_def)
  also have "\<dots> = heap w" using 1 2 by simp
  finally show ?case by (simp add: w1_def)
qed

section \<open>Claims about one goroutine calling GetClient\<close>

text \<open>
  \<^bold>\<open>Claim C8.\<close> The map only grows. After one call of \<open>GetClient\<close>, and after any run of
  calls, every entry that was there is still there with the same pointer; one call adds at
  most the key it computed; and the clients allocated before are still where they were,
  unchanged.
\<close>

theorem GetClient_append_only:
  "(\<forall>k p. clients w k = Some p \<longrightarrow>
      clients (snd (GetClient parse config w)) k = Some p \<and>
      clients (GetClient_calls parse configs w) k = Some p) \<and>
   dom (clients (snd (GetClient parse config w))) \<subseteq> insert (getFingerprint config) (dom (clients w)) \<and>
   take (length (heap w)) (heap (snd (GetClient parse config w))) = heap w \<and>
   take (length (heap w)) (heap (GetClient_calls parse configs w)) = heap w"
  by (intro conjI allI impI GetClient_clients_mono GetClient_calls_mono GetClient_dom
      GetClient_heap_prefix GetClient_calls_heap_prefix)

lemma example_clients_after_first:
  "clients (snd (GetClient example_parse example_config NewHTTPClientManager))
     (getFingerprint example_config) = Some 0"
  by (simp add: GetClient_miss NewHTTPClientManager_def)

theorem GetClient_append_only_witness:
  "clients (snd (GetClient example_parse example_config NewHTTPClientManager))
     (getFingerprint example_config) = Some 0 \<and>
   clients (snd (GetClient example_parse (example_config\<lparr>IdleConnTimeout := 121 * Second\<rparr>)
       (snd (GetClient example_parse example_config NewHTTPClientManager))))
     (getFingerprint example_config) = Some 0"
  using GetClient_append_only [of "snd (GetClient example_parse example_config NewHTTPClientManager)"
      example_parse "example_config\<lparr>IdleConnTimeout := 121 * Second\<rparr>" "[]"]
    example_clients_after_first
  by blast

lemma client_for_proxy: "Proxy (Transport (client_for parse c)) = Some (proxy_choice parse c)"
  by (simp add: client_for_def build_client_eq)

text \<open>
  \<^bold>\<open>Claim C7.\<close> \<open>GetClient\<close> always returns: on a manager made by
  \<open>NewHTTPClientManager\<close> and used through \<open>GetClient\<close> only, with any configuration and any
  behaviour of \<open>url.Parse\<close>, it gives a pointer to an allocated client, filed under the
  fingerprint, built for a configuration with that fingerprint, with its proxy function set.
  The model has no error result, as the method has none.
\<close>

theorem GetClient_total:
  assumes "reachable parse w"
  shows "\<exists>p w'. GetClient parse config w = (p, w') \<and> reachable parse w' \<and>
           p < length (heap w') \<and> clients w' (getFingerprint config) = Some p \<and>
           (\<exists>c. getFingerprint c = getFingerprint config \<and> heap w' ! p = client_for parse c) \<and>
           Proxy (Transport (heap w' ! p)) \<noteq> None"
proof -
  define p where "p = fst (GetClient parse config w)"
  define w' where "w' = snd (GetClient parse config w)"
  have eq: "GetClient parse config w = (p, w')" by (simp add: p_def w'_def)
  have r: "reachable parse w'" unfolding w'_def using assms by (rule reachable_call)
  have c: "clients w' (getFingerprint config) = Some p"
    unfolding p_def w'_def by (rule GetClient_cached)
  from reachable_inv [OF r] c
  have v: "p < length (heap w')"
    and b: "\<exists>c. getFingerprint c = getFingerprint config \<and> heap w' ! p = client_for parse c"
    by (auto simp: manager_inv_def)
  from b have "Proxy (Transport (heap w' ! p)) \<noteq> None"
    by (auto simp: client_for_proxy)
  with eq r c v b show ?thesis by blast
qed

theorem GetClient_total_witness:
  "reachable example_parse NewHTTPClientManager \<and>
   example_parse (ProxyURL (example_config\<lparr>ProxyURL := ''http://%zz''\<rparr>)) =
     Inl example_parse_error \<and>
   (\<exists>p w'. GetClient example_parse (example_config\<lparr>ProxyURL := ''http://%zz''\<rparr>)
        NewHTTPClientManager = (p, w') \<and>
      p < length (heap w') \<and> Proxy (Transport (heap w' ! p)) \<noteq> None)"
proof -
  have r: "reachable example_parse NewHTTPClientManager" by (rule reachable_new)
  have e: "example_parse (ProxyURL (example_config\<lparr>ProxyURL := ''http://%zz''\<rparr>)) =
     Inl example_parse_error"
    by (simp add: example_parse_def)
  from GetClient_total [OF r, of "example_config\<lparr>ProxyURL := ''http://%zz''\<rparr>"] r e
  show ?thesis by blast
qed

lemma client_for_tls:
  "TLSClientConfig (Transport (client_for parse c)) =
     (if ProxyTLSSkipVerify c then Some \<lparr>InsecureSkipVerify = True\<rparr> else None)"
  by (simp add: client_for_def build_client_eq)

lemma GetClient_miss_result:
  assumes "clients w (getFingerprint config) = None" "GetClient parse config w = (p, w')"
  shows "p = length (heap w)" "p < length (heap w')" "heap w' ! p = client_for parse config"
    "log w' = log w @ tls_entries config @ proxy_entries parse config"
  using assms by (auto simp: GetClient_miss)

lemma invalid_proxy_not_tls: "invalid_proxy_warning proxy err \<noteq> tls_warning"
  by (simp add: invalid_proxy_warning_def tls_warning_def)

lemma count_tls_proxy_entries: "count_list (proxy_entries parse config) (Warn tls_warning) = 0"
  by (simp add: proxy_entries_def invalid_proxy_not_tls split: sum.splits)

text \<open>
  The claim C5 as it is written fails in its third case: with an empty proxy string and the
  skip-verify flag set, the call on a new manager chooses the proxy of the environment and
  yet logs a warning, the one of the TLS block before the proxy block.
\<close>

theorem empty_proxy_warning_counterexample:
  "ProxyURL (example_config\<lparr>ProxyTLSSkipVerify := True\<rparr>) = [] \<and>
   clients NewHTTPClientManager (getFingerprint (example_config\<lparr>ProxyTLSSkipVerify := True\<rparr>)) = None \<and>
   Proxy (Transport (heap (snd (GetClient example_parse (example_config\<lparr>ProxyTLSSkipVerify := True\<rparr>)
       NewHTTPClientManager)) ! fst (GetClient example_parse (example_config\<lparr>ProxyTLSSkipVerify := True\<rparr>)
       NewHTTPClientManager))) = Some http_ProxyFromEnvironment \<and>
   log NewHTTPClientManager = [] \<and>
   log (snd (GetClient example_parse (example_config\<lparr>ProxyTLSSkipVerify := True\<rparr>)
       NewHTTPClientManager)) =
     [Warn ''Proxy TLS certificate verification is disabled - this is not recommended for production use'']"
proof -
  define cfg where "cfg = example_config\<lparr>ProxyTLSSkipVerify := True\<rparr>"
  have u: "ProxyURL cfg = []" by (simp add: cfg_def example_config_def)
  have f: "ProxyTLSSkipVerify cfg" by (simp add: cfg_def)
  have n: "clients NewHTTPClientManager (getFingerprint cfg) = None"
    by (simp add: NewHTTPClientManager_def)
  have l: "log NewHTTPClientManager = []" "heap NewHTTPClientManager = []"
    by (simp_all add: NewHTTPClientManager_def)
  have g: "GetClient example_parse cfg NewHTTPClientManager =
      (fst (GetClient example_parse cfg NewHTTPClientManager),
       snd (GetClient example_parse cfg NewHTTPClientManager))"
    by simp
  note r = GetClient_miss_result [OF n g]
  have "Proxy (Transport (heap (snd (GetClient example_parse cfg NewHTTPClientManager)) !
      fst (GetClient example_parse cfg NewHTTPClientManager))) = Some http_ProxyFromEnvironment"
    by (simp add: r(3) client_for_proxy proxy_choice_def u)
  moreover have "log (snd (GetClient example_parse cfg NewHTTPClientManager)) =
      [Warn ''Proxy TLS certificate verification is disabled - this is not recommended for production use'']"
    by (simp add: r(4) l tls_entries_def proxy_entries_def u f tls_warning_def)
  ultimately show ?thesis
    using u n l(1) unfolding cfg_def by simp
qed

text \<open>
  \<^bold>\<open>Claim C5, amended.\<close> On a miss the proxy is chosen by three cases, and the client is
  returned in each. A string that parses: the transport is pinned to that proxy. A string
  that does not parse: the proxy of the environment, and the proxy block logs exactly one
  warning, which holds the string. An empty string: the proxy of the environment, and the
  proxy block logs nothing. The only other entry of the call is the warning of the TLS
  block, logged before the proxy block exactly when the skip-verify flag is set; so with an
  empty string the call logs no warning if and only if that flag is unset.
\<close>

theorem GetClient_proxy_resolution:
  assumes "clients w (getFingerprint config) = None" "GetClient parse config w = (p, w')"
  shows "p < length (heap w') \<and>
    log w' = log w @ (if ProxyTLSSkipVerify config then [Warn tls_warning] else []) @
                     proxy_entries parse config \<and>
    (ProxyURL config = [] \<longrightarrow>
       Proxy (Transport (heap w' ! p)) = Some http_ProxyFromEnvironment \<and>
       proxy_entries parse config = [] \<and>
       (log w' = log w \<longleftrightarrow> \<not> ProxyTLSSkipVerify config)) \<and>
    (\<forall>u. ProxyURL config \<noteq> [] \<and> parse (ProxyURL config) = Inr u \<longrightarrow>
       Proxy (Transport (heap w' ! p)) = Some (http_ProxyURL u) \<and>
       proxy_entries parse config = []) \<and>
    (\<forall>err. ProxyURL config \<noteq> [] \<and> parse (ProxyURL config) = Inl err \<longrightarrow>
       Proxy (Transport (heap w' ! p)) = Some http_ProxyFromEnvironment \<and>
       proxy_entries parse config = [Warn (invalid_proxy_warning (ProxyURL config) err)] \<and>
       (\<exists>pre post. invalid_proxy_warning (ProxyURL config) err = pre @ ProxyURL config @ post))"
proof -
  note r = GetClient_miss_result [OF assms]
  have named: "\<exists>pre post. invalid_proxy_warning (ProxyURL config) err = pre @ ProxyURL config @ post"
    for err
    unfolding invalid_proxy_warning_def by (metis append.assoc)
  show ?thesis
    using r(2) named
    by (auto simp: r(3) r(4) client_for_proxy proxy_choice_def proxy_entries_def tls_entries_def)
qed

theorem GetClient_proxy_resolution_witness:
  "clients NewHTTPClientManager (getFingerprint (example_config\<lparr>ProxyURL := ''http://%zz''\<rparr>)) = None \<and>
   ProxyURL (example_config\<lparr>ProxyURL := ''http://%zz''\<rparr>) \<noteq> [] \<and>
   example_parse (ProxyURL (example_config\<lparr>ProxyURL := ''http://%zz''\<rparr>)) = Inl example_parse_error \<and>
   Proxy (Transport (heap (snd (GetClient example_parse (example_config\<lparr>ProxyURL := ''http://%zz''\<rparr>)
       NewHTTPClientManager)) ! fst (GetClient example_parse (example_config\<lparr>ProxyURL := ''http://%zz''\<rparr>)
       NewHTTPClientManager))) = Some http_ProxyFromEnvironment \<and>
   log (snd (GetClient example_parse (example_config\<lparr>ProxyURL := ''http://%zz''\<rparr>) NewHTTPClientManager)) =
     [Warn (''Invalid proxy URL '' @ [CHR 0x27] @ ''http://%zz'' @ [CHR 0x27] @
            '' provided, falling back to environment settings: parse '' @
            [CHR 0x22] @ ''http://%zz'' @ [CHR 0x22] @ '': invalid URL escape '' @
            [CHR 0x22] @ ''%zz'' @ [CHR 0x22])] \<and>
   clients NewHTTPClientManager (getFingerprint (example_config\<lparr>ProxyURL := ''http://127.0.0.1:7890''\<rparr>)) = None \<and>
   ProxyURL (example_config\<lparr>ProxyURL := ''http://127.0.0.1:7890''\<rparr>) \<noteq> [] \<and>
   example_parse (ProxyURL (example_config\<lparr>ProxyURL := ''http://127.0.0.1:7890''\<rparr>)) =
     Inr (URL ''http://127.0.0.1:7890'') \<and>
   Proxy (Transport (heap (snd (GetClient example_parse (example_config\<lparr>ProxyURL := ''http://127.0.0.1:7890''\<rparr>)
       NewHTTPClientManager)) ! fst (GetClient example_parse (example_config\<lparr>ProxyURL := ''http://127.0.0.1:7890''\<rparr>)
       NewHTTPClientManager))) = Some (http_ProxyURL (URL ''http://127.0.0.1:7890'')) \<and>
   log (snd (GetClient example_parse (example_config\<lparr>ProxyURL := ''http://127.0.0.1:7890''\<rparr>)
       NewHTTPClientManager)) = [] \<and>
   clients NewHTTPClientManager (getFingerprint example_config) = None \<and>
   ProxyURL example_config = [] \<and> \<not> ProxyTLSSkipVerify example_config \<and>
   Proxy (Transport (heap (snd (GetClient example_parse example_config NewHTTPClientManager)) !
       fst (GetClient example_parse example_config NewHTTPClientManager))) =
     Some http_ProxyFromEnvironment \<and>
   log (snd (GetClient example_parse example_config NewHTTPClientManager)) = []"
proof -
  have l: "log NewHTTPClientManager = []" by (simp add: NewHTTPClientManager_def)
  have n: "clients NewHTTPClientManager k = None" for k
    by (simp add: NewHTTPClientManager_def)
  have g: "GetClient example_parse c NewHTTPClientManager =
      (fst (GetClient example_parse c NewHTTPClientManager),
       snd (GetClient example_parse c NewHTTPClientManager))" for c
    by simp
  define bad where "bad = example_config\<lparr>ProxyURL := ''http://%zz''\<rparr>"
  have bu: "ProxyURL bad = ''http://%zz''" and bf: "\<not> ProxyTLSSkipVerify bad"
    by (simp_all add: bad_def example_config_def)
  have be: "example_parse (ProxyURL bad) = Inl example_parse_error"
    by (simp add: bu example_parse_def)
  have bt: "invalid_proxy_warning ''http://%zz'' example_parse_error =
      ''Invalid proxy URL '' @ [CHR 0x27] @ ''http://%zz'' @ [CHR 0x27] @
      '' provided, falling back to environment settings: parse '' @
      [CHR 0x22] @ ''http://%zz'' @ [CHR 0x22] @ '': invalid URL escape '' @
      [CHR 0x22] @ ''%zz'' @ [CHR 0x22]"
    by (simp add: invalid_proxy_warning_def example_parse_error_def)
  from GetClient_proxy_resolution [OF n g, of bad] be bu bf l bt
  have b: "Proxy (Transport (heap (snd (GetClient example_parse bad NewHTTPClientManager)) !
       fst (GetClient example_parse bad NewHTTPClientManager))) = Some http_ProxyFromEnvironment \<and>
     log (snd (GetClient example_parse bad NewHTTPClientManager)) =
       [Warn (''Invalid proxy URL '' @ [CHR 0x27] @ ''http://%zz'' @ [CHR 0x27] @
            '' provided, falling back to environment settings: parse '' @
            [CHR 0x22] @ ''http://%zz'' @ [CHR 0x22] @ '': invalid URL escape '' @
            [CHR 0x22] @ ''%zz'' @ [CHR 0x22])]"
    by simp
  define good where "good = example_config\<lparr>ProxyURL := ''http://127.0.0.1:7890''\<rparr>"
  have gu: "ProxyURL good = ''http://127.0.0.1:7890''" and gf: "\<not> ProxyTLSSkipVerify good"
    by (simp_all add: good_def example_config_def)
  have ge: "example_parse (ProxyURL good) = Inr (URL ''http://127.0.0.1:7890'')"
    by (simp add: gu example_parse_def)
  from GetClient_proxy_resolution [OF n g, of good] ge gu gf l
  have gd: "Proxy (Transport (heap (snd (GetClient example_parse good NewHTTPClientManager)) !
       fst (GetClient example_parse good NewHTTPClientManager))) =
       Some (http_ProxyURL (URL ''http://127.0.0.1:7890'')) \<and>
     log (snd (GetClient example_parse good NewHTTPClientManager)) = []"
    by simp
  have eu: "ProxyURL example_config = []" and ef: "\<not> ProxyTLSSkipVerify example_config"
    by (simp_all add: example_config_def)
  from GetClient_proxy_resolution [OF n g, of example_config] eu ef l
  have em: "Proxy (Transport (heap (snd (GetClient example_parse example_config NewHTTPClientManager)) !
       fst (GetClient example_parse example_config NewHTTPClientManager))) =
       Some http_ProxyFromEnvironment \<and>
     log (snd (GetClient example_parse example_config NewHTTPClientManager)) = []"
    by simp
  from b gd em n be ge bu gu eu ef show ?thesis
    unfolding bad_def [symmetric] good_def [symmetric] by simp
qed

text \<open>
  \<^bold>\<open>Claim C6.\<close> When a client is built (a miss) from a configuration with the skip-verify
  flag set, the transport does not verify the certificate of the proxy leg and the call logs
  the TLS warning exactly once; with the flag unset it verifies and logs no such warning.
  The entries logged before stay as they were.
\<close>

theorem GetClient_skip_verify:
  assumes "clients w (getFingerprint config) = None" "GetClient parse config w = (p, w')"
  shows "take (length (log w)) (log w') = log w \<and>
    (ProxyTLSSkipVerify config \<longrightarrow>
       \<not> verifies_certificate (Transport (heap w' ! p)) ProxyLeg \<and>
       count_list (drop (length (log w)) (log w')) (Warn tls_warning) = 1) \<and>
    (\<not> ProxyTLSSkipVerify config \<longrightarrow>
       verifies_certificate (Transport (heap w' ! p)) ProxyLeg \<and>
       count_list (drop (length (log w)) (log w')) (Warn tls_warning) = 0)"
proof -
  note r = GetClient_miss_result [OF assms]
  show ?thesis
    by (simp add: r(3) r(4) verifies_certificate_def client_for_tls tls_entries_def
        count_tls_proxy_entries)
qed

theorem GetClient_skip_verify_witness:
  "clients NewHTTPClientManager (getFingerprint (example_config\<lparr>ProxyTLSSkipVerify := True\<rparr>)) = None \<and>
   ProxyTLSSkipVerify (example_config\<lparr>ProxyTLSSkipVerify := True\<rparr>) \<and>
   \<not> verifies_certificate (Transport (heap (snd (GetClient example_parse
        (example_config\<lparr>ProxyTLSSkipVerify := True\<rparr>) NewHTTPClientManager)) !
      fst (GetClient example_parse (example_config\<lparr>ProxyTLSSkipVerify := True\<rparr>)
        NewHTTPClientManager))) ProxyLeg \<and>
   count_list (log (snd (GetClient example_parse
        (example_config\<lparr>ProxyTLSSkipVerify := True\<rparr>) NewHTTPClientManager))) (Warn tls_warning) = 1"
proof -
  define cfg where "cfg = example_config\<lparr>ProxyTLSSkipVerify := True\<rparr>"
  have h1: "clients NewHTTPClientManager (getFingerprint cfg) = None"
    by (simp add: NewHTTPClientManager_def)
  have h2: "GetClient example_parse cfg NewHTTPClientManager =
      (fst (GetClient example_parse cfg NewHTTPClientManager),
       snd (GetClient example_parse cfg NewHTTPClientManager))"
    by simp
  have f: "ProxyTLSSkipVerify cfg" by (simp add: cfg_def)
  have l: "log NewHTTPClientManager = []" by (simp add: NewHTTPClientManager_def)
  from GetClient_skip_verify [OF h1 h2] f l h1
  show ?thesis unfolding cfg_def [symmetric] by auto
qed

text \<open>
  \<^bold>\<open>Claim C10.\<close> With the skip-verify flag set, the client \<open>GetClient\<close> returns, built now
  or cached, has \<open>InsecureSkipVerify\<close> set in the one TLS configuration of its transport, so
  that the certificate is verified neither on the leg to the origin nor on the leg to the
  proxy.
\<close>

theorem GetClient_skip_verify_transport_wide:
  assumes "reachable parse w" "ProxyTLSSkipVerify config" "GetClient parse config w = (p, w')"
  shows "TLSClientConfig (Transport (heap w' ! p)) = Some \<lparr>InsecureSkipVerify = True\<rparr> \<and>
         \<not> verifies_certificate (Transport (heap w' ! p)) OriginLeg \<and>
         \<not> verifies_certificate (Transport (heap w' ! p)) ProxyLeg"
proof -
  have w': "w' = snd (GetClient parse config w)" and p: "p = fst (GetClient parse config w)"
    using assms(3) by simp_all
  have r: "reachable parse w'" unfolding w' using assms(1) by (rule reachable_call)
  have c: "clients w' (getFingerprint config) = Some p"
    unfolding p w' by (rule GetClient_cached)
  from reachable_inv [OF r] c obtain c' where
    c': "getFingerprint c' = getFingerprint config" "heap w' ! p = client_for parse c'"
    by (auto simp: manager_inv_def)
  from c'(1) have "ProxyTLSSkipVerify c' = ProxyTLSSkipVerify config"
    by (simp add: getFingerprint_eq_iff same_at_precision_def)
  with assms(2) c'(2) show ?thesis
    by (simp add: client_for_tls verifies_certificate_def)
qed

theorem GetClient_skip_verify_transport_wide_witness:
  "reachable example_parse NewHTTPClientManager \<and>
   ProxyTLSSkipVerify (example_config\<lparr>ProxyTLSSkipVerify := True\<rparr>) \<and>
   \<not> verifies_certificate (Transport (heap (snd (GetClient example_parse
        (example_config\<lparr>ProxyTLSSkipVerify := True\<rparr>) NewHTTPClientManager)) !
      fst (GetClient example_parse (example_config\<lparr>ProxyTLSSkipVerify := True\<rparr>)
        NewHTTPClientManager))) OriginLeg"
proof -
  define cfg where "cfg = example_config\<lparr>ProxyTLSSkipVerify := True\<rparr>"
  have r: "reachable example_parse NewHTTPClientManager" by (rule reachable_new)
  have f: "ProxyTLSSkipVerify cfg" by (simp add: cfg_def)
  have h2: "GetClient example_parse cfg NewHTTPClientManager =
      (fst (GetClient example_parse cfg NewHTTPClientManager),
       snd (GetClient example_parse cfg NewHTTPClientManager))"
    by simp
  from GetClient_skip_verify_transport_wide [OF r f h2] r f
  show ?thesis unfolding cfg_def [symmetric] by blast
qed




section \<open>Several goroutines\<close>

subsection \<open>Counting the goroutines at a position\<close>

lemma count_update:
  "i < length xs \<Longrightarrow>
   length (filter P (xs[i := y])) + (if P (xs ! i) then 1 else 0)
     = length (filter P xs) + (if P y then 1 else 0)"
proof (induction xs arbitrary: i)
  case Nil
  then show ?case by simp
next
  case (Cons x xs)
  then show ?case by (cases i) auto
qed

lemma count_zero_iff: "length (filter P xs) = 0 \<longleftrightarrow> (\<forall>x \<in> set xs. \<not> P x)"
  by (simp add: filter_empty_conv)

lemma count_pos: "i < length xs \<Longrightarrow> P (xs ! i) \<Longrightarrow> 0 < length (filter P xs)"
  by (metis count_zero_iff gr0I nth_mem)

lemma count_one_others:
  "length (filter P xs) \<le> 1 \<Longrightarrow> i < length xs \<Longrightarrow> P (xs ! i) \<Longrightarrow> j < length xs \<Longrightarrow> j \<noteq> i
   \<Longrightarrow> \<not> P (xs ! j)"
proof (induction xs arbitrary: i j)
  case Nil
  then show ?case by simp
next
  case (Cons x xs)
  show ?case
  proof (cases "P x")
    case True
    with Cons.prems(1) have "length (filter P xs) = 0" by simp
    then have none: "\<forall>y \<in> set xs. \<not> P y" by (simp add: filter_empty_conv)
    from Cons.prems(2,3) none have "i = 0" by (cases i) auto
    with Cons.prems(4,5) none show ?thesis by (cases j) auto
  next
    case False
    with Cons.prems(3) obtain i' where i: "i = Suc i'" by (cases i) auto
    show ?thesis
    proof (cases j)
      case 0
      with False show ?thesis by simp
    next
      case (Suc j')
      with Cons.IH [of i' j'] Cons.prems False i show ?thesis by simp
    qed
  qed
qed

lemma count_mono:
  "(\<And>x. P x \<Longrightarrow> Q x) \<Longrightarrow> length (filter P xs) \<le> length (filter Q xs)"
  by (induction xs) auto

subsection \<open>Steps keep the invariant\<close>

lemma good_cong:
  "clients s' = clients s \<Longrightarrow> length (heap s') = length (heap s) \<Longrightarrow> good k s' g = good k s g"
  by (cases g) simp_all

lemma good_heap_grow:
  "clients s' = clients s \<Longrightarrow> \<not> at_store g \<Longrightarrow> good k s' g = good k s g"
  by (cases g) simp_all

lemma good_after_store:
  "clients s k = None \<Longrightarrow> good k s g \<Longrightarrow> \<not> in_cs g \<Longrightarrow> good k s' g"
  by (cases g) auto

lemma list_all_update_others:
  assumes "i < length xs" "Q y" "\<And>j. j < length xs \<Longrightarrow> j \<noteq> i \<Longrightarrow> Q (xs ! j)"
  shows "list_all Q (xs[i := y])"
  unfolding list_all_length using assms by (auto simp: nth_list_update)

lemma prefix_length: "take (length ys) xs = ys \<Longrightarrow> length ys \<le> length xs"
proof -
  assume "take (length ys) xs = ys"
  then have "length (take (length ys) xs) = length ys" by simp
  then show ?thesis by simp
qed

lemma sys_invD:
  assumes "sys_inv k w0 (s, gs)"
  shows "length (filter in_cs gs) = (if writer s then 1 else 0)"
    and "length (filter in_rd gs) = readers s"
    and "writer s \<longrightarrow> readers s = 0"
    and "list_all (good k s) gs"
    and "\<forall>k'. k' \<noteq> k \<longrightarrow> clients s k' = clients w0 k'"
    and "take (length (heap w0)) (heap s) = heap w0"
    and "\<forall>q. clients w0 k = Some q \<longrightarrow> clients s k = Some q \<and> heap s = heap w0"
    and "clients w0 k = None \<longrightarrow> clients s k = None \<longrightarrow>
           length (heap s) = length (heap w0) + length (filter at_store gs)"
    and "clients w0 k = None \<longrightarrow>
           (\<forall>p. clients s k = Some p \<longrightarrow>
              p = length (heap w0) \<and> length (heap s) = length (heap w0) + 1)"
  using assms by (simp_all add: sys_inv_def)

lemma sys_invI:
  assumes "length (filter in_cs gs) = (if writer s then 1 else 0)"
    and "length (filter in_rd gs) = readers s"
    and "writer s \<longrightarrow> readers s = 0"
    and "list_all (good k s) gs"
    and "\<forall>k'. k' \<noteq> k \<longrightarrow> clients s k' = clients w0 k'"
    and "take (length (heap w0)) (heap s) = heap w0"
    and "\<forall>q. clients w0 k = Some q \<longrightarrow> clients s k = Some q \<and> heap s = heap w0"
    and "clients w0 k = None \<longrightarrow> clients s k = None \<longrightarrow>
           length (heap s) = length (heap w0) + length (filter at_store gs)"
    and "clients w0 k = None \<longrightarrow>
           (\<forall>p. clients s k = Some p \<longrightarrow>
              p = length (heap w0) \<and> length (heap s) = length (heap w0) + 1)"
  shows "sys_inv k w0 (s, gs)"
  unfolding sys_inv_def prod.case by (intro conjI assms)

lemma in_cs_writer:
  assumes "sys_inv k w0 (s, gs)" "i < length gs" "in_cs (gs ! i)"
  shows "writer s" "readers s = 0" "\<And>j. j < length gs \<Longrightarrow> j \<noteq> i \<Longrightarrow> \<not> in_cs (gs ! j)"
proof -
  note c = sys_invD(1) [OF assms(1)] and w = sys_invD(3) [OF assms(1)]
  from count_pos [OF assms(2), of in_cs] assms(3) c show wr: "writer s"
    by (cases "writer s") simp_all
  with w show "readers s = 0" by simp
  from c wr have "length (filter in_cs gs) \<le> 1" by simp
  then show "\<And>j. j < length gs \<Longrightarrow> j \<noteq> i \<Longrightarrow> \<not> in_cs (gs ! j)"
    using count_one_others [of in_cs gs i] assms(2,3) by blast
qed

lemma in_rd_readers:
  assumes "sys_inv k w0 (s, gs)" "i < length gs" "in_rd (gs ! i)"
  shows "0 < readers s" "\<not> writer s"
proof -
  note c = sys_invD(2) [OF assms(1)] and w = sys_invD(3) [OF assms(1)]
  from count_pos [OF assms(2), of in_rd] assms(3) c show "0 < readers s" by simp
  with w show "\<not> writer s" by auto
qed

text \<open>A step that leaves the map and the heap alone.\<close>

lemma inv_frame:
  assumes inv: "sys_inv k w0 (s, gs)" and i: "i < length gs"
    and same: "clients s' = clients s" "heap s' = heap s"
    and cnt_cs: "(if writer s' then 1 else 0) + (if in_cs (gs ! i) then 1 else 0)
                 = (if writer s then 1 else 0) + (if in_cs g' then (1::nat) else 0)"
    and cnt_rd: "readers s' + (if in_rd (gs ! i) then 1 else 0)
                 = readers s + (if in_rd g' then 1 else 0)"
    and wr: "writer s' \<longrightarrow> readers s' = 0"
    and st: "\<not> at_store (gs ! i)" "\<not> at_store g'"
    and gd: "good k s g'"
  shows "sys_inv k w0 (s', gs[i := g'])"
proof (rule sys_invI)
  note c = sys_invD [OF inv]
  show "length (filter in_cs (gs[i := g'])) = (if writer s' then 1 else 0)"
    using count_update [OF i, of in_cs g'] c(1) cnt_cs by (simp split: if_splits)
  show "length (filter in_rd (gs[i := g'])) = readers s'"
    using count_update [OF i, of in_rd g'] c(2) cnt_rd by (simp split: if_splits)
  show "writer s' \<longrightarrow> readers s' = 0" by (rule wr)
  have g: "good k s' x = good k s x" for x
    using same by (intro good_cong) simp_all
  show "list_all (good k s') (gs[i := g'])"
  proof (rule list_all_update_others [OF i])
    show "good k s' g'" using gd g by simp
  next
    fix j assume "j < length gs" "j \<noteq> i"
    with c(4) show "good k s' (gs ! j)" by (simp add: g list_all_length)
  qed
  show "\<forall>k'. k' \<noteq> k \<longrightarrow> clients s' k' = clients w0 k'" using c(5) by (simp add: same)
  show "take (length (heap w0)) (heap s') = heap w0" using c(6) by (simp add: same)
  show "\<forall>q. clients w0 k = Some q \<longrightarrow> clients s' k = Some q \<and> heap s' = heap w0"
    using c(7) by (simp add: same)
  have n3: "length (filter at_store (gs[i := g'])) = length (filter at_store gs)"
    using count_update [OF i, of at_store g'] st by simp
  show "clients w0 k = None \<longrightarrow> clients s' k = None \<longrightarrow>
          length (heap s') = length (heap w0) + length (filter at_store (gs[i := g']))"
    using c(8) by (simp add: same n3)
  show "clients w0 k = None \<longrightarrow>
          (\<forall>p. clients s' k = Some p \<longrightarrow>
             p = length (heap w0) \<and> length (heap s') = length (heap w0) + 1)"
    using c(9) by (simp add: same)
qed

lemma inv_build:
  assumes inv: "sys_inv k w0 (s, gs)" and i: "i < length gs" and at: "gs ! i = AtBuild c"
    and s': "clients s' = clients s" "heap s' = heap s @ [x]" "readers s' = readers s"
      "writer s' = writer s"
    and g': "g' = AtStore c (length (heap s))"
  shows "sys_inv k w0 (s', gs[i := g'])"
proof (rule sys_invI)
  note c = sys_invD [OF inv]
  have cs: "in_cs (gs ! i)" by (simp add: at)
  note ex = in_cs_writer [OF inv i cs]
  have gi: "good k s (gs ! i)" using c(4) i by (simp add: list_all_length)
  then have fk: "getFingerprint c = k" and none: "clients s k = None" by (simp_all add: at)
  show "length (filter in_cs (gs[i := g'])) = (if writer s' then 1 else 0)"
    using count_update [OF i, of in_cs g'] c(1) by (simp add: at g' s')
  show "length (filter in_rd (gs[i := g'])) = readers s'"
    using count_update [OF i, of in_rd g'] c(2) by (simp add: at g' s')
  show "writer s' \<longrightarrow> readers s' = 0" using c(3) by (simp add: s')
  show "list_all (good k s') (gs[i := g'])"
  proof (rule list_all_update_others [OF i])
    show "good k s' g'" using fk none by (simp add: g' s')
  next
    fix j assume j: "j < length gs" "j \<noteq> i"
    then have "\<not> in_cs (gs ! j)" using ex(3) by simp
    then have "\<not> at_store (gs ! j)" by (cases "gs ! j") simp_all
    then have "good k s' (gs ! j) = good k s (gs ! j)"
      by (intro good_heap_grow) (simp_all add: s')
    with c(4) j show "good k s' (gs ! j)" by (simp add: list_all_length)
  qed
  show "\<forall>k'. k' \<noteq> k \<longrightarrow> clients s' k' = clients w0 k'" using c(5) by (simp add: s')
  have le: "length (heap w0) \<le> length (heap s)" using c(6) by (rule prefix_length)
  show "take (length (heap w0)) (heap s') = heap w0" using c(6) le by (simp add: s')
  show "\<forall>q. clients w0 k = Some q \<longrightarrow> clients s' k = Some q \<and> heap s' = heap w0"
    using c(7) none by auto
  have n3: "length (filter at_store (gs[i := g'])) = length (filter at_store gs) + 1"
    using count_update [OF i, of at_store g'] by (simp add: at g')
  show "clients w0 k = None \<longrightarrow> clients s' k = None \<longrightarrow>
          length (heap s') = length (heap w0) + length (filter at_store (gs[i := g']))"
    using c(8) none by (simp add: s' n3)
  show "clients w0 k = None \<longrightarrow>
          (\<forall>p. clients s' k = Some p \<longrightarrow>
             p = length (heap w0) \<and> length (heap s') = length (heap w0) + 1)"
    using none by (simp add: s')
qed

lemma inv_store:
  assumes inv: "sys_inv k w0 (s, gs)" and i: "i < length gs" and at: "gs ! i = AtStore c p"
    and s': "clients s' = (clients s)(getFingerprint c \<mapsto> p)" "heap s' = heap s"
      "readers s' = readers s" "writer s' = writer s"
    and g': "g' = AtUnlock p"
  shows "sys_inv k w0 (s', gs[i := g'])"
proof (rule sys_invI)
  note c = sys_invD [OF inv]
  have cs: "in_cs (gs ! i)" by (simp add: at)
  note ex = in_cs_writer [OF inv i cs]
  have gi: "good k s (gs ! i)" using c(4) i by (simp add: list_all_length)
  then have fk: "getFingerprint c = k" and none: "clients s k = None"
    and p: "Suc p = length (heap s)" by (simp_all add: at)
  have sk: "clients s' k = Some p" using fk by (simp add: s')
  show "length (filter in_cs (gs[i := g'])) = (if writer s' then 1 else 0)"
    using count_update [OF i, of in_cs g'] c(1) by (simp add: at g' s')
  show "length (filter in_rd (gs[i := g'])) = readers s'"
    using count_update [OF i, of in_rd g'] c(2) by (simp add: at g' s')
  show "writer s' \<longrightarrow> readers s' = 0" using c(3) by (simp add: s')
  show "list_all (good k s') (gs[i := g'])"
  proof (rule list_all_update_others [OF i])
    show "good k s' g'" using sk by (simp add: g')
  next
    fix j assume j: "j < length gs" "j \<noteq> i"
    then have nc: "\<not> in_cs (gs ! j)" using ex(3) by simp
    have gj: "good k s (gs ! j)" using c(4) j by (simp add: list_all_length)
    show "good k s' (gs ! j)" by (rule good_after_store [OF none gj nc])
  qed
  show "\<forall>k'. k' \<noteq> k \<longrightarrow> clients s' k' = clients w0 k'" using c(5) fk by (simp add: s')
  show "take (length (heap w0)) (heap s') = heap w0" using c(6) by (simp add: s')
  show "\<forall>q. clients w0 k = Some q \<longrightarrow> clients s' k = Some q \<and> heap s' = heap w0"
    using c(7) none by auto
  show "clients w0 k = None \<longrightarrow> clients s' k = None \<longrightarrow>
          length (heap s') = length (heap w0) + length (filter at_store (gs[i := g']))"
    using sk by simp
  have a1: "length (filter at_store gs) \<le> length (filter in_cs gs)"
    by (rule count_mono) (case_tac x, simp_all)
  have a2: "0 < length (filter at_store gs)"
    using count_pos [OF i, of at_store] by (simp add: at)
  have a3: "length (filter in_cs gs) = 1" using c(1) ex(1) by simp
  have one: "length (filter at_store gs) = 1" using a1 a2 a3 by linarith
  show "clients w0 k = None \<longrightarrow>
          (\<forall>p. clients s' k = Some p \<longrightarrow>
             p = length (heap w0) \<and> length (heap s') = length (heap w0) + 1)"
  proof (intro impI allI)
    fix p' assume w0k: "clients w0 k = None" and p': "clients s' k = Some p'"
    from c(8) w0k none one have h: "length (heap s) = length (heap w0) + 1" by simp
    from p' sk have "p' = p" by simp
    with h p show "p' = length (heap w0) \<and> length (heap s') = length (heap w0) + 1"
      by (simp add: s'(2))
  qed
qed

lemma good_nth: "sys_inv k w0 (s, gs) \<Longrightarrow> i < length gs \<Longrightarrow> good k s (gs ! i)"
  using sys_invD(4) [of k w0 s gs] by (simp add: list_all_length)

lemma advance_inv:
  assumes inv: "sys_inv k w0 (s, gs)" and i: "i < length gs"
    and adv: "advance parse (gs ! i) s = Some (g', s')"
  shows "sys_inv k w0 (s', gs[i := g'])"
proof (cases "gs ! i")
  case (AtRLock c)
  with adv have w: "\<not> writer s" and r: "g' = AtLookup c" "s' = s\<lparr>readers := readers s + 1\<rparr>"
    by (auto simp: advance_def split: if_splits)
  from good_nth [OF inv i] AtRLock have "good k s g'" by (simp add: r)
  then show ?thesis
    using w by (intro inv_frame [OF inv i]) (simp_all add: r AtRLock)
next
  case (AtLookup c)
  with adv have r: "g' = AtRUnlock c (clients s (getFingerprint c))" "s' = s"
    by (auto simp: advance_def)
  from good_nth [OF inv i] AtLookup have "good k s g'" by (auto simp: r)
  then show ?thesis
    using sys_invD(3) [OF inv] by (intro inv_frame [OF inv i]) (simp_all add: r AtLookup)
next
  case (AtRUnlock c found)
  with adv have r: "g' = (case found of Some client \<Rightarrow> Returned client | None \<Rightarrow> AtLock c)"
    "s' = s\<lparr>readers := readers s - 1\<rparr>"
    by (auto simp: advance_def)
  have rd: "in_rd (gs ! i)" by (simp add: AtRUnlock)
  note rs = in_rd_readers [OF inv i rd]
  from good_nth [OF inv i] AtRUnlock
  have fk: "getFingerprint c = k" and fd: "found = None \<or> found = clients s k" by simp_all
  have gd: "good k s g'"
  proof (cases found)
    case None
    with fk show ?thesis by (simp add: r)
  next
    case (Some client)
    with fd have "clients s k = Some client" by simp
    with Some show ?thesis by (simp add: r)
  qed
  have nrd: "\<not> in_rd g'" "\<not> in_cs g'" "\<not> at_store g'" by (cases found; simp add: r)+
  show ?thesis
    using rs nrd gd by (intro inv_frame [OF inv i]) (simp_all add: r(2) AtRUnlock)
next
  case (AtLock c)
  with adv have w: "\<not> writer s" "readers s = 0" and r: "g' = AtRecheck c" "s' = s\<lparr>writer := True\<rparr>"
    by (auto simp: advance_def split: if_splits)
  from good_nth [OF inv i] AtLock have "good k s g'" by (simp add: r)
  then show ?thesis
    using w by (intro inv_frame [OF inv i]) (simp_all add: r AtLock)
next
  case (AtRecheck c)
  with adv have r: "g' = (case clients s (getFingerprint c) of
        Some client \<Rightarrow> AtUnlock client | None \<Rightarrow> AtBuild c)" "s' = s"
    by (auto simp: advance_def)
  from good_nth [OF inv i] AtRecheck have fk: "getFingerprint c = k" by simp
  have gd: "good k s g'" using fk by (cases "clients s k") (simp_all add: r)
  have cs: "in_cs g'" "\<not> in_rd g'" "\<not> at_store g'"
    by (cases "clients s (getFingerprint c)"; simp add: r)+
  show ?thesis
    using cs gd sys_invD(3) [OF inv] by (intro inv_frame [OF inv i]) (simp_all add: r(2) AtRecheck)
next
  case (AtBuild c)
  obtain x l where b: "build_client parse c (log s) = (x, l)"
    by (cases "build_client parse c (log s)") auto
  with adv AtBuild have r: "g' = AtStore c (length (heap s))"
    "s' = s\<lparr>heap := heap s @ [x], log := l\<rparr>"
    by (auto simp: advance_def)
  show ?thesis
    by (rule inv_build [OF inv i AtBuild _ _ _ _ r(1)]) (simp_all add: r(2))
next
  case (AtStore c p)
  with adv have r: "g' = AtUnlock p" "s' = s\<lparr>clients := (clients s)(getFingerprint c \<mapsto> p)\<rparr>"
    by (auto simp: advance_def)
  show ?thesis
    by (rule inv_store [OF inv i AtStore _ _ _ _ r(1)]) (simp_all add: r(2))
next
  case (AtUnlock p)
  with adv have r: "g' = Returned p" "s' = s\<lparr>writer := False\<rparr>"
    by (auto simp: advance_def)
  have cs: "in_cs (gs ! i)" by (simp add: AtUnlock)
  note ex = in_cs_writer [OF inv i cs]
  from good_nth [OF inv i] AtUnlock have "good k s g'" by (simp add: r)
  then show ?thesis
    using ex(1) by (intro inv_frame [OF inv i]) (simp_all add: r AtUnlock)
next
  case (Returned p)
  with adv show ?thesis by (simp add: advance_def)
qed

lemma step_inv: "sys_inv k w0 sys \<Longrightarrow> sys_inv k w0 (step parse i sys)"
proof -
  assume inv: "sys_inv k w0 sys"
  obtain s gs where sys: "sys = (s, gs)" by (cases sys)
  show ?thesis
  proof (cases "i < length gs")
    case False
    with inv sys show ?thesis by (simp add: step_def)
  next
    case True
    show ?thesis
    proof (cases "advance parse (gs ! i) s")
      case None
      with inv sys True show ?thesis by (simp add: step_def)
    next
      case (Some r)
      obtain g' s' where r: "r = (g', s')" by (cases r)
      from advance_inv [OF inv [unfolded sys] True Some [unfolded r]]
      show ?thesis using True Some by (simp add: step_def sys r)
    qed
  qed
qed

lemma run_inv: "sys_inv k w0 sys \<Longrightarrow> sys_inv k w0 (run parse schedule sys)"
  by (induction schedule arbitrary: sys) (simp_all add: step_inv)

lemma start_inv:
  assumes "list_all (\<lambda>c. getFingerprint c = k) configs"
  shows "sys_inv k w (start configs w)"
proof -
  have f: "filter P (map AtRLock configs) = []" if "\<And>c. \<not> P (AtRLock c)" for P
    using that by (induction configs) simp_all
  have g: "list_all (good k s) (map AtRLock configs)" for s
    using assms by (induction configs) simp_all
  show ?thesis
    unfolding start_def
    by (rule sys_invI) (simp_all add: f g world.defs)
qed

subsection \<open>Progress\<close>

lemma advance_weight: "advance parse g s = Some (g', s') \<Longrightarrow> weight g' < weight g"
  by (cases g) (auto simp: advance_def split: if_splits option.splits prod.splits)

lemma sum_weight_update:
  "i < length gs \<Longrightarrow> weight g' < weight (gs ! i) \<Longrightarrow>
   sum_list (map weight (gs[i := g'])) < sum_list (map weight gs)"
proof (induction gs arbitrary: i)
  case Nil
  then show ?case by simp
next
  case (Cons g gs)
  then show ?case by (cases i) auto
qed

lemma exists_nth: "0 < length (filter P xs) \<Longrightarrow> \<exists>i < length xs. P (xs ! i)"
proof -
  assume "0 < length (filter P xs)"
  then obtain x where "x \<in> set xs" "P x" by (auto simp: filter_empty_conv)
  then show ?thesis by (auto simp: in_set_conv_nth)
qed

lemma in_cs_enabled: "in_cs g \<Longrightarrow> advance parse g s \<noteq> None"
  by (cases g) (auto simp: advance_def split: prod.splits)

lemma in_rd_enabled: "in_rd g \<Longrightarrow> advance parse g s \<noteq> None"
  by (cases g) (auto simp: advance_def)

lemma free_enabled:
  "\<not> writer s \<Longrightarrow> readers s = 0 \<Longrightarrow> \<not> returned g \<Longrightarrow> advance parse g s \<noteq> None"
  by (cases g) (auto simp: advance_def split: prod.splits)

text \<open>No deadlock: while a goroutine has not returned, one of them can take its next step.\<close>

lemma some_enabled:
  assumes inv: "sys_inv k w0 (s, gs)" and open_calls: "\<not> list_all returned gs"
  shows "\<exists>i < length gs. advance parse (gs ! i) s \<noteq> None"
proof (cases "writer s")
  case True
  with sys_invD(1) [OF inv] have "0 < length (filter in_cs gs)" by simp
  from exists_nth [OF this] obtain i where i: "i < length gs" "in_cs (gs ! i)" by auto
  from i(2) have "advance parse (gs ! i) s \<noteq> None" by (rule in_cs_enabled)
  with i(1) show ?thesis by auto
next
  case False
  show ?thesis
  proof (cases "readers s = 0")
    case True
    from open_calls obtain i where i: "i < length gs" "\<not> returned (gs ! i)"
      by (auto simp: list_all_length)
    from False True i(2) have "advance parse (gs ! i) s \<noteq> None" by (rule free_enabled)
    with i(1) show ?thesis by auto
  next
    case nz: False
    with sys_invD(2) [OF inv] have "0 < length (filter in_rd gs)" by simp
    from exists_nth [OF this] obtain i where i: "i < length gs" "in_rd (gs ! i)" by auto
    from i(2) have "advance parse (gs ! i) s \<noteq> None" by (rule in_rd_enabled)
    with i(1) show ?thesis by auto
  qed
qed

lemma run_append: "run parse (xs @ ys) sys = run parse ys (run parse xs sys)"
  by (induction xs arbitrary: sys) simp_all

lemma completes:
  "sys_inv k w0 sys \<Longrightarrow> \<exists>more. list_all returned (snd (run parse more sys))"
proof (induction "sum_list (map weight (snd sys))" arbitrary: sys rule: less_induct)
  case less
  obtain s gs where sys: "sys = (s, gs)" by (cases sys)
  show ?case
  proof (cases "list_all returned gs")
    case True
    then have "list_all returned (snd (run parse [] sys))" by (simp add: sys)
    then show ?thesis by blast
  next
    case False
    from some_enabled [where parse = parse, OF less.prems [unfolded sys] False]
    obtain i g' s' where i: "i < length gs" and adv: "advance parse (gs ! i) s = Some (g', s')"
      by auto
    have st: "step parse i sys = (s', gs[i := g'])"
      using i adv by (simp add: step_def sys)
    have "sum_list (map weight (gs[i := g'])) < sum_list (map weight gs)"
      by (rule sum_weight_update [OF i advance_weight [OF adv]])
    then have m: "sum_list (map weight (snd (step parse i sys))) < sum_list (map weight (snd sys))"
      unfolding st by (simp add: sys)
    have inv': "sys_inv k w0 (step parse i sys)"
      using less.prems by (rule step_inv)
    from less.hyps [OF m inv']
    obtain more where "list_all returned (snd (run parse more (step parse i sys)))" by blast
    then have "list_all returned (snd (run parse (i # more) sys))" by simp
    then show ?thesis by blast
  qed
qed

lemma writer_excludes:
  assumes inv: "sys_inv k w0 (s, gs)" and i: "i < length gs" and cs: "in_cs (gs ! i)"
    and j: "j < length gs"
  shows "\<not> in_rd (gs ! j)" "in_cs (gs ! j) \<longrightarrow> j = i"
proof -
  note ex = in_cs_writer [OF inv i cs]
  show "\<not> in_rd (gs ! j)"
  proof
    assume "in_rd (gs ! j)"
    from in_rd_readers(2) [OF inv j this] ex(1) show False by simp
  qed
  show "in_cs (gs ! j) \<longrightarrow> j = i" using ex(3) [OF j] by blast
qed

lemma heap_bound:
  assumes inv: "sys_inv k w0 (s, gs)"
  shows "length (heap s) \<le> length (heap w0) + 1"
proof (cases "clients w0 k")
  case (Some q)
  with sys_invD(7) [OF inv] show ?thesis by simp
next
  case None
  show ?thesis
  proof (cases "clients s k")
    case (Some p)
    with None sys_invD(9) [OF inv] show ?thesis by simp
  next
    case n: None
    have "length (filter at_store gs) \<le> length (filter in_cs gs)"
      by (rule count_mono) (case_tac x, simp_all)
    also have "\<dots> \<le> 1" using sys_invD(1) [OF inv] by simp
    finally show ?thesis using sys_invD(8) [OF inv] None n by simp
  qed
qed

subsection \<open>What the invariant gives\<close>

lemma step_length: "length (snd (step parse i sys)) = length (snd sys)"
  by (cases sys) (auto simp: step_def split: option.splits)

lemma run_length: "length (snd (run parse schedule sys)) = length (snd sys)"
  by (induction schedule arbitrary: sys) (simp_all add: step_length)

lemma all_returned_same:
  assumes inv: "sys_inv k w0 (s, gs)" and all: "list_all returned gs" and p: "clients s k = Some p"
  shows "gs = replicate (length gs) (Returned p)"
proof (rule nth_equalityI)
  show "length gs = length (replicate (length gs) (Returned p))" by simp
next
  fix i assume i: "i < length gs"
  with all have "returned (gs ! i)" by (simp add: list_all_length)
  then obtain q where q: "gs ! i = Returned q" by (cases "gs ! i") simp_all
  with good_nth [OF inv i] p have "q = p" by simp
  with q i show "gs ! i = replicate (length gs) (Returned p) ! i" by simp
qed

lemma example_fingerprint_15200ms:
  "getFingerprint (example_config\<lparr>ConnectTimeout := 15200000000\<rparr>) = getFingerprint example_config"
  by code_simp

lemma example_same_fingerprint:
  "list_all (\<lambda>c. getFingerprint c = getFingerprint example_config) example_callers"
  by (simp add: example_callers_def example_fingerprint_15200ms)

lemma example_run_returns:
  "snd (run example_parse example_schedule (start example_callers NewHTTPClientManager)) =
     [Returned 0, Returned 0, Returned 0]"
  by (simp add: example_schedule_def example_callers_def start_def step_def advance_def
      example_fingerprint_15200ms NewHTTPClientManager_def world.defs build_client_eq)

lemma example_run_heap:
  "heap (fst (run example_parse example_schedule (start example_callers NewHTTPClientManager))) =
     [client_for example_parse (example_config\<lparr>ConnectTimeout := 15200000000\<rparr>)]"
  by (simp add: example_schedule_def example_callers_def start_def step_def advance_def
      example_fingerprint_15200ms NewHTTPClientManager_def world.defs build_client_eq client_for_def)

text \<open>One goroutine alone takes eight steps and does what the sequential model says.\<close>

lemma solo_run:
  "run parse [0, 0, 0, 0, 0, 0, 0, 0] (start [config] w) =
     (world.extend (snd (GetClient parse config w)) \<lparr>readers = 0, writer = False\<rparr>,
      [Returned (fst (GetClient parse config w))])"
proof (cases "clients w (getFingerprint config)")
  case None
  then show ?thesis
    by (simp add: start_def step_def advance_def world.defs GetClient_miss build_client_eq
        client_for_def)
next
  case (Some p)
  then show ?thesis
    by (simp add: start_def step_def advance_def world.defs GetClient_hit)
qed

section \<open>Claim about concurrent callers\<close>

text \<open>
  \<^bold>\<open>Claim C1.\<close> Any number of goroutines call \<open>GetClient\<close> with configurations of one
  fingerprint \<open>k\<close>, under any schedule. At every moment two callers that have returned
  hold the same pointer, the one filed under \<open>k\<close>, and at most one client has been
  built. When all have returned and \<open>k\<close> was not in the map, exactly one client has been
  built and everybody holds it; when \<open>k\<close> was in the map, none has been built and
  everybody holds the old one. While one goroutine holds the write lock nobody reads the map
  or is in the locked section with it. Every schedule can be continued until all callers have
  returned.
\<close>

theorem GetClient_concurrent:
  assumes same: "list_all (\<lambda>c. getFingerprint c = k) configs"
    and result: "run parse schedule (start configs w) = (s, gs)"
  shows
    "(\<forall>i j p q. i < length gs \<and> j < length gs \<and> gs ! i = Returned p \<and> gs ! j = Returned q
        \<longrightarrow> p = q \<and> clients s k = Some p) \<and>
     length (heap s) \<le> length (heap w) + 1 \<and>
     (clients w k = None \<and> configs \<noteq> [] \<and> list_all returned gs \<longrightarrow>
        length (heap s) = length (heap w) + 1 \<and>
        gs = replicate (length configs) (Returned (length (heap w)))) \<and>
     (\<forall>q. clients w k = Some q \<longrightarrow>
        heap s = heap w \<and>
        (list_all returned gs \<longrightarrow> gs = replicate (length configs) (Returned q))) \<and>
     (\<forall>i j. i < length gs \<and> j < length gs \<and> in_cs (gs ! i)
        \<longrightarrow> \<not> in_rd (gs ! j) \<and> (in_cs (gs ! j) \<longrightarrow> j = i)) \<and>
     (\<exists>more. list_all returned (snd (run parse (schedule @ more) (start configs w))))"
proof -
  have inv: "sys_inv k w (s, gs)"
    using run_inv [where parse = parse and schedule = schedule, OF start_inv [OF same, of w]] result
    by simp
  have len: "length gs = length configs"
    using run_length [of parse schedule "start configs w"] result by (simp add: start_def)
  have a: "\<forall>i j p q. i < length gs \<and> j < length gs \<and> gs ! i = Returned p \<and> gs ! j = Returned q
        \<longrightarrow> p = q \<and> clients s k = Some p"
  proof (intro allI impI)
    fix i j p q
    assume h: "i < length gs \<and> j < length gs \<and> gs ! i = Returned p \<and> gs ! j = Returned q"
    with good_nth [OF inv, of i] good_nth [OF inv, of j]
    show "p = q \<and> clients s k = Some p" by auto
  qed
  have b: "length (heap s) \<le> length (heap w) + 1" by (rule heap_bound [OF inv])
  have c: "clients w k = None \<and> configs \<noteq> [] \<and> list_all returned gs \<longrightarrow>
        length (heap s) = length (heap w) + 1 \<and>
        gs = replicate (length configs) (Returned (length (heap w)))"
  proof
    assume h: "clients w k = None \<and> configs \<noteq> [] \<and> list_all returned gs"
    then have 0: "0 < length gs" using len by simp
    with h have "returned (gs ! 0)" by (simp add: list_all_length)
    then obtain p where p: "gs ! 0 = Returned p" by (cases "gs ! 0") simp_all
    with good_nth [OF inv 0] have sk: "clients s k = Some p" by simp
    with sys_invD(9) [OF inv] h have "p = length (heap w)" "length (heap s) = length (heap w) + 1"
      by simp_all
    with all_returned_same [OF inv _ sk] h len
    show "length (heap s) = length (heap w) + 1 \<and>
        gs = replicate (length configs) (Returned (length (heap w)))" by simp
  qed
  have d: "\<forall>q. clients w k = Some q \<longrightarrow>
        heap s = heap w \<and>
        (list_all returned gs \<longrightarrow> gs = replicate (length configs) (Returned q))"
  proof (intro allI impI conjI)
    fix q assume q: "clients w k = Some q"
    with sys_invD(7) [OF inv] show "heap s = heap w" by simp
    assume "list_all returned gs"
    moreover from q sys_invD(7) [OF inv] have "clients s k = Some q" by simp
    ultimately show "gs = replicate (length configs) (Returned q)"
      using all_returned_same [OF inv] len by simp
  qed
  have e: "\<forall>i j. i < length gs \<and> j < length gs \<and> in_cs (gs ! i)
        \<longrightarrow> \<not> in_rd (gs ! j) \<and> (in_cs (gs ! j) \<longrightarrow> j = i)"
    using writer_excludes [OF inv] by blast
  have f: "\<exists>more. list_all returned (snd (run parse (schedule @ more) (start configs w)))"
    using completes [where parse = parse, OF inv] by (simp add: run_append result)
  from a b c d e f show ?thesis by (intro conjI)
qed

theorem GetClient_concurrent_witness:
  "list_all (\<lambda>c. getFingerprint c = getFingerprint example_config) example_callers \<and>
   clients NewHTTPClientManager (getFingerprint example_config) = None \<and>
   snd (run example_parse example_schedule (start example_callers NewHTTPClientManager)) =
     [Returned 0, Returned 0, Returned 0] \<and>
   length (heap (fst (run example_parse example_schedule
     (start example_callers NewHTTPClientManager)))) = 1"
proof -
  define s where "s = fst (run example_parse example_schedule (start example_callers NewHTTPClientManager))"
  define gs where "gs = snd (run example_parse example_schedule (start example_callers NewHTTPClientManager))"
  have h1: "list_all (\<lambda>c. getFingerprint c = getFingerprint example_config) example_callers"
    by (rule example_same_fingerprint)
  have h2: "run example_parse example_schedule (start example_callers NewHTTPClientManager) = (s, gs)"
    by (simp add: s_def gs_def)
  have fresh: "clients NewHTTPClientManager (getFingerprint example_config) = None"
    by (simp add: NewHTTPClientManager_def)
  have ne: "example_callers \<noteq> []" by (simp add: example_callers_def)
  have fin: "list_all returned gs" by (simp add: gs_def example_run_returns)
  have h0: "length (heap NewHTTPClientManager) = 0" by (simp add: NewHTTPClientManager_def)
  from GetClient_concurrent [OF h1 h2] fresh ne fin
  have "length (heap s) = length (heap NewHTTPClientManager) + 1"
    by blast
  with h1 fresh h0 show ?thesis
    by (simp add: s_def [symmetric] gs_def [symmetric] example_run_returns [folded gs_def])
qed



end
